theory Spec2Isabelle
  imports Main "HOL-Library.Multiset"
begin

section \<open>Data model of the lazylabor plugin\<close>

text \<open>
  The enumerations \<open>df::job_skill\<close> and \<open>df::unit_labor\<close> are declared in generated
  headers. Both have a distinguished value \<open>NONE\<close>; every other value is identified by
  its number. A labor number doubles as the index into \<open>lazy_labors\<close> and into a unit's
  \<open>status.labors\<close> array.
\<close>

datatype job_skill = job_skill_NONE | JobSkill nat

datatype unit_labor = unit_labor_NONE | UnitLabor nat

text \<open>
  \<open>df::unit_skill\<close>: the fields read by the plugin. All of them are signed integers,
  as are the counters and bounds of the plugin itself. No computation below leaves the
  range of a C \<open>int\<close> unless a bound or a rating is close to its limits, so the model
  uses the integers.
\<close>

record unit_skill =
  skill_id :: job_skill
  rating :: int
  experience :: int
  rusty :: int
  rust_counter :: int

text \<open>
  \<open>df::unit\<close>, restricted to what the plugin reads and writes. \<open>current_soul\<close> is the
  soul pointer (\<open>None\<close> for a null pointer) together with the soul's skill vector.
  \<open>isCitizen\<close> and \<open>isAdult\<close> are the answers of \<open>Units::isCitizen\<close> and
  \<open>Units::isAdult\<close>; \<open>profession_DRUNK\<close> says that the profession is
  \<open>df::profession::DRUNK\<close>, \<open>profession_military\<close> is the \<open>military\<close> attribute of the
  profession. \<open>labors\<close> is the array \<open>status.labors\<close>, indexed by labor number.
\<close>

record df_unit =
  current_soul :: "unit_skill list option"
  isCitizen :: bool
  isAdult :: bool
  profession_DRUNK :: bool
  profession_military :: bool
  labors :: "nat \<Rightarrow> bool"

record labor_info =
  skill :: job_skill
  uniformed :: bool
  minimum :: int
  maximum :: int
  active :: int

text \<open>
  \<open>struct worker\<close>. The field \<open>unit\<close> is one of the pointers of the vector
  \<open>world->units.active\<close>, which holds every unit once; here it is the position
  \<open>unit_ix\<close> of the unit in that vector, and every access through the pointer is an
  access to the vector at that position. \<open>this_skill\<close> and \<open>other_skill\<close> point to
  skill records, which a pass never changes.
\<close>

record worker =
  unit_ix :: nat
  skilled :: int
  unskilled :: int
  total_skill :: int
  uniform :: unit_labor
  this_skill :: "unit_skill option"
  other_skill :: "unit_skill option"

datatype command_result = CR_OK | CR_FAILURE

text \<open>
  The globals of the plugin and the part of the world it touches. \<open>lazy_labors\<close> has
  one entry per labor, so its length is \<open>LAST_VALUE(unit_labor) + 1\<close>.
  \<open>fortress_mode\<close> is the answer of \<open>World::isFortressMode()\<close>. The C library's
  \<open>rand()\<close> is the sequence \<open>rand_seq\<close> of its successive results, of which
  \<open>rand_calls\<close> have been consumed.
\<close>

record state =
  enabled :: bool
  fortress_mode :: bool
  frame_counter :: int
  last_frame_count :: int
  lazy_labors :: "labor_info list"
  units :: "df_unit list"
  rand_seq :: "nat \<Rightarrow> nat"
  rand_calls :: nat

definition DELTA_TICKS :: int where
  "DELTA_TICKS = 1200"

section \<open>Comparators\<close>

text \<open>
  The macro \<open>Compare(a, b)\<close> is \<open>if (a != b) return a > b\<close>; \<open>CompareSkills(a, b)\<close>
  returns true when \<open>moreSkilled(a, b)\<close> and false when \<open>moreSkilled(b, a)\<close>. Both fall
  through otherwise.
\<close>

fun moreSkilled :: "unit_skill option \<Rightarrow> unit_skill option \<Rightarrow> bool" where
  "moreSkilled None s2 = False"
| "moreSkilled (Some s1) None = True"
| "moreSkilled (Some s1) (Some s2) =
     (if rating s1 \<noteq> rating s2 then rating s1 > rating s2
      else if experience s1 \<noteq> experience s2 then experience s1 > experience s2
      else if rusty s1 \<noteq> rusty s2 then rusty s1 > rusty s2
      else if rust_counter s1 \<noteq> rust_counter s2 then rust_counter s1 > rust_counter s2
      else False)"

definition sortBySkilledLabor :: "worker \<Rightarrow> worker \<Rightarrow> bool" where
  "sortBySkilledLabor w1 w2 =
     (if moreSkilled (this_skill w1) (this_skill w2) then True
      else if moreSkilled (this_skill w2) (this_skill w1) then False
      else if skilled w2 \<noteq> skilled w1 then skilled w2 > skilled w1
      else if moreSkilled (other_skill w1) (other_skill w2) then True
      else if moreSkilled (other_skill w2) (other_skill w1) then False
      else if unskilled w2 \<noteq> unskilled w1 then unskilled w2 > unskilled w1
      else if total_skill w2 \<noteq> total_skill w1 then total_skill w2 > total_skill w1
      else False)"

definition sortByUnskilledLabor :: "worker \<Rightarrow> worker \<Rightarrow> bool" where
  "sortByUnskilledLabor w1 w2 =
     (if unskilled w2 \<noteq> unskilled w1 then unskilled w2 > unskilled w1
      else if moreSkilled (other_skill w1) (other_skill w2) then True
      else if moreSkilled (other_skill w2) (other_skill w1) then False
      else if skilled w2 \<noteq> skilled w1 then skilled w2 > skilled w1
      else if total_skill w2 \<noteq> total_skill w1 then total_skill w2 > total_skill w1
      else False)"

section \<open>Sorting the workers for a labor\<close>

text \<open>
  The body of the inner loop of \<open>sortUnitsBySkill\<close>, for one skill record of one worker.
\<close>

definition scan_skill :: "job_skill \<Rightarrow> unit_skill \<Rightarrow> worker \<Rightarrow> worker" where
  "scan_skill sort_skill sk w =
     (let w1 = w\<lparr>total_skill := total_skill w + rating sk\<rparr>
      in if sort_skill \<noteq> job_skill_NONE \<and> skill_id sk = sort_skill
         then w1\<lparr>this_skill := Some sk\<rparr>
         else if moreSkilled (Some sk) (other_skill w1)
         then w1\<lparr>other_skill := Some sk\<rparr>
         else w1)"

text \<open>
  The skill vector reached through \<open>worker->unit->status.current_soul\<close>. A worker is
  only ever built for a unit that passed \<open>can_work\<close>, which has a soul; the other case
  is not reached.
\<close>

definition soul_skills :: "df_unit \<Rightarrow> unit_skill list" where
  "soul_skills u = (case current_soul u of None \<Rightarrow> [] | Some sks \<Rightarrow> sks)"

text \<open>
  The body of the outer loop of \<open>sortUnitsBySkill\<close>: the two skill pointers are
  reset, \<open>total_skill\<close> is not.
\<close>

definition profile_worker :: "df_unit list \<Rightarrow> job_skill \<Rightarrow> worker \<Rightarrow> worker" where
  "profile_worker us sort_skill w =
     fold (scan_skill sort_skill) (soul_skills (us ! unit_ix w))
       (w\<lparr>this_skill := None, other_skill := None\<rparr>)"

text \<open>
  \<open>std::sort\<close> with a comparator: the result is a permutation in which no element is
  ranked strictly before one of its predecessors. The order of equivalent elements is
  left open by the C++ standard; the model takes the stable one, by insertion.
\<close>

fun insert_by :: "('a \<Rightarrow> 'a \<Rightarrow> bool) \<Rightarrow> 'a \<Rightarrow> 'a list \<Rightarrow> 'a list" where
  "insert_by lt x [] = [x]"
| "insert_by lt x (y # ys) = (if lt y x then y # insert_by lt x ys else x # y # ys)"

definition sort_by :: "('a \<Rightarrow> 'a \<Rightarrow> bool) \<Rightarrow> 'a list \<Rightarrow> 'a list" where
  "sort_by lt xs = foldr (insert_by lt) xs []"

definition sortUnitsBySkill :: "df_unit list \<Rightarrow> worker list \<Rightarrow> job_skill \<Rightarrow> worker list" where
  "sortUnitsBySkill us workers sort_skill =
     sort_by (if sort_skill \<noteq> job_skill_NONE then sortBySkilledLabor else sortByUnskilledLabor)
       (map (profile_worker us sort_skill) workers)"

section \<open>Eligibility\<close>

definition can_work :: "df_unit \<Rightarrow> bool" where
  "can_work u =
     (if current_soul u = None then False
      else if \<not> isCitizen u then False
      else if \<not> isAdult u then False
      else if profession_DRUNK u then False
      else if profession_military u then False
      else True)"

section \<open>The pass\<close>

subsection \<open>Recount\<close>

text \<open>The body of the loop over the labors of one eligible unit (lines 222 to 233).\<close>

fun count_labor :: "df_unit \<Rightarrow> nat \<Rightarrow> labor_info list \<times> worker \<Rightarrow> labor_info list \<times> worker" where
  "count_labor dwarf labor (ll, w) =
     (if labors dwarf labor then
        (ll[labor := (ll ! labor)\<lparr>active := active (ll ! labor) + 1\<rparr>],
         (let w1 = (if skill (ll ! labor) = job_skill_NONE
                    then w\<lparr>unskilled := unskilled w + 1\<rparr>
                    else w\<lparr>skilled := skilled w + 1\<rparr>)
          in if uniformed (ll ! labor) then w1\<lparr>uniform := UnitLabor labor\<rparr> else w1))
      else (ll, w))"

definition new_worker :: "nat \<Rightarrow> worker" where
  "new_worker i = \<lparr>unit_ix = i, skilled = 0, unskilled = 0, total_skill = 0,
     uniform = unit_labor_NONE, this_skill = None, other_skill = None\<rparr>"

text \<open>\<open>workers.push_back(worker)\<close>, after the labors of the unit have been counted.\<close>

fun push_back :: "worker list \<Rightarrow> labor_info list \<times> worker \<Rightarrow> labor_info list \<times> worker list" where
  "push_back workers (ll, w) = (ll, workers @ [w])"

text \<open>
  The loop over \<open>world->units.active\<close> (lines 213 to 237): \<open>i\<close> is the position of
  the first unit of the remaining vector.
\<close>

fun count_units :: "df_unit list \<Rightarrow> nat \<Rightarrow> labor_info list \<times> worker list
    \<Rightarrow> labor_info list \<times> worker list" where
  "count_units [] i (ll, workers) = (ll, workers)"
| "count_units (dwarf # rest) i (ll, workers) =
     (if \<not> can_work dwarf then count_units rest (Suc i) (ll, workers)
      else count_units rest (Suc i)
             (push_back workers (fold (count_labor dwarf) [0..<length ll] (ll, new_worker i))))"

subsection \<open>Deficit and surplus correction\<close>

text \<open>
  The assignment \<open>worker->unit->status.labors[labor] = b\<close>, for the unit at
  position \<open>i\<close> (\<open>array_set a i b\<close> is the array \<open>a\<close> with \<open>b\<close> stored at index \<open>i\<close>);
  the counter update \<open>lazy_labors[labor].active += d\<close>; and the update
  of the worker's tally that goes with it.
\<close>

definition array_set :: "(nat \<Rightarrow> bool) \<Rightarrow> nat \<Rightarrow> bool \<Rightarrow> nat \<Rightarrow> bool" where
  "array_set a i b j = (if j = i then b else a j)"

definition set_flag :: "nat \<Rightarrow> bool \<Rightarrow> df_unit \<Rightarrow> df_unit" where
  "set_flag labor b u = u\<lparr>labors := array_set (labors u) labor b\<rparr>"

definition set_labor :: "df_unit list \<Rightarrow> nat \<Rightarrow> nat \<Rightarrow> bool \<Rightarrow> df_unit list" where
  "set_labor us i labor b = us[i := set_flag labor b (us ! i)]"

definition add_active :: "labor_info list \<Rightarrow> nat \<Rightarrow> int \<Rightarrow> labor_info list" where
  "add_active ll labor d = ll[labor := (ll ! labor)\<lparr>active := active (ll ! labor) + d\<rparr>]"

definition add_tally :: "labor_info list \<Rightarrow> nat \<Rightarrow> int \<Rightarrow> worker \<Rightarrow> worker" where
  "add_tally ll labor d w =
     (if skill (ll ! labor) = job_skill_NONE
      then w\<lparr>unskilled := unskilled w + d\<rparr>
      else w\<lparr>skilled := skilled w + d\<rparr>)"

text \<open>
  The walks below go through the sorted worker vector from its first element on and
  return the vector together with the labor table and the units. \<open>keep_worker\<close> puts
  the worker just visited back in front of the result for the rest of the vector.
\<close>

fun keep_worker :: "worker \<Rightarrow> worker list \<times> labor_info list \<times> df_unit list
    \<Rightarrow> worker list \<times> labor_info list \<times> df_unit list" where
  "keep_worker w (ws, ll, us) = (w # ws, ll, us)"

text \<open>The walk of lines 244 to 258.\<close>

fun add_labor :: "nat \<Rightarrow> worker list \<Rightarrow> int \<Rightarrow> labor_info list \<Rightarrow> df_unit list
    \<Rightarrow> worker list \<times> labor_info list \<times> df_unit list" where
  "add_labor labor [] needed ll us = ([], ll, us)"
| "add_labor labor (w # ws) needed ll us =
     (if \<not> labors (us ! unit_ix w) labor then
        (if needed - 1 = 0
         then (add_tally ll labor 1 w # ws, add_active ll labor 1,
               set_labor us (unit_ix w) labor True)
         else keep_worker (add_tally ll labor 1 w)
                (add_labor labor ws (needed - 1) (add_active ll labor 1)
                   (set_labor us (unit_ix w) labor True)))
      else keep_worker w (add_labor labor ws needed ll us))"

text \<open>The walk of lines 264 to 282.\<close>

fun remove_labor :: "nat \<Rightarrow> worker list \<Rightarrow> int \<Rightarrow> int \<Rightarrow> labor_info list \<Rightarrow> df_unit list
    \<Rightarrow> worker list \<times> labor_info list \<times> df_unit list" where
  "remove_labor labor [] remaining excess ll us = ([], ll, us)"
| "remove_labor labor (w # ws) remaining excess ll us =
     (if labors (us ! unit_ix w) labor then
        (if remaining \<noteq> 0
         then keep_worker w (remove_labor labor ws (remaining - 1) excess ll us)
         else if excess - 1 = 0
         then (add_tally ll labor (- 1) w # ws, add_active ll labor (- 1),
               set_labor us (unit_ix w) labor False)
         else keep_worker (add_tally ll labor (- 1) w)
                (remove_labor labor ws remaining (excess - 1) (add_active ll labor (- 1))
                   (set_labor us (unit_ix w) labor False)))
      else keep_worker w (remove_labor labor ws remaining excess ll us))"

text \<open>One iteration of the loop over the labors (lines 240 to 283).\<close>

fun check_labor :: "nat \<Rightarrow> worker list \<times> labor_info list \<times> df_unit list
    \<Rightarrow> worker list \<times> labor_info list \<times> df_unit list" where
  "check_labor labor (workers, ll, us) =
     (if active (ll ! labor) < minimum (ll ! labor) then
        add_labor labor (sortUnitsBySkill us workers (skill (ll ! labor)))
          (minimum (ll ! labor) - active (ll ! labor)) ll us
      else if active (ll ! labor) > maximum (ll ! labor) then
        remove_labor labor (sortUnitsBySkill us workers (skill (ll ! labor)))
          (maximum (ll ! labor)) (active (ll ! labor) - maximum (ll ! labor)) ll us
      else (workers, ll, us))"

subsection \<open>The idle-worker safety net\<close>

type_synonym rng = "(nat \<Rightarrow> nat) \<times> nat"

fun rand :: "rng \<Rightarrow> nat \<times> rng" where
  "rand (f, n) = (f n, (f, Suc n))"

text \<open>
  The test \<open>!(rand() % ++found)\<close> and the assignment it guards, given the result of
  the call of \<open>rand()\<close>.
\<close>

fun draw :: "nat \<Rightarrow> unit_labor \<Rightarrow> int \<Rightarrow> nat \<times> rng \<Rightarrow> unit_labor \<times> int \<times> rng" where
  "draw labor selected found (r, g) =
     (if int r mod (found + 1) = 0 then UnitLabor labor else selected, found + 1, g)"

text \<open>
  The body of the sampling loops of lines 295 to 304 and 325 to 331, which differ only
  in the test on the labor's skill: \<open>want_skilled\<close> is true for the first and false for
  the second. \<open>rand()\<close> is called, and \<open>found\<close> incremented, only when the two tests
  before it hold.
\<close>

fun sample_labor :: "bool \<Rightarrow> labor_info list \<Rightarrow> nat \<Rightarrow> unit_labor \<times> int \<times> rng
    \<Rightarrow> unit_labor \<times> int \<times> rng" where
  "sample_labor want_skilled ll labor (selected, found, g) =
     (if (skill (ll ! labor) \<noteq> job_skill_NONE) = want_skilled
         \<and> active (ll ! labor) < maximum (ll ! labor)
      then draw labor selected found (rand g)
      else (selected, found, g))"

text \<open>
  The loop of lines 314 to 319: it assigns the local variable \<open>selected\<close> and nothing
  else.
\<close>

definition last_unskilled :: "labor_info list \<Rightarrow> unit_labor \<Rightarrow> unit_labor" where
  "last_unskilled ll selected =
     fold (\<lambda>labor sel.
             if skill (ll ! labor) = job_skill_NONE \<and> active (ll ! labor) < maximum (ll ! labor)
             then UnitLabor labor else sel)
       [0..<length ll] selected"

text \<open>
  \<open>worker->unit->status.labors[selected] = true\<close>. It only runs when \<open>found\<close> is not
  zero, and then \<open>selected\<close> is a labor.
\<close>

definition enable_selected :: "df_unit list \<Rightarrow> nat \<Rightarrow> unit_labor \<Rightarrow> df_unit list" where
  "enable_selected us i selected =
     (case selected of UnitLabor labor \<Rightarrow> set_labor us i labor True | unit_labor_NONE \<Rightarrow> us)"

text \<open>
  What follows the sampling loop for a worker without skilled labor (lines 306 to 320),
  and for a worker with skilled but without unskilled labor (lines 333 to 335). In the
  first, \<open>selected'\<close> is the value of \<open>selected\<close> after the loop of lines 314 to 319;
  nothing reads it.
\<close>

fun enable_skilled :: "labor_info list \<Rightarrow> worker \<Rightarrow> df_unit list \<Rightarrow> unit_labor \<times> int \<times> rng
    \<Rightarrow> df_unit list \<times> rng" where
  "enable_skilled ll w us (selected, found, g) =
     (let us' = (if found \<noteq> 0 then enable_selected us (unit_ix w) selected else us);
          selected' = (if unskilled w = 0 then last_unskilled ll selected else selected)
      in (us', g))"

fun enable_unskilled :: "worker \<Rightarrow> df_unit list \<Rightarrow> unit_labor \<times> int \<times> rng
    \<Rightarrow> df_unit list \<times> rng" where
  "enable_unskilled w us (selected, found, g) =
     (if found \<noteq> 0 then enable_selected us (unit_ix w) selected else us, g)"

text \<open>The body of the loop over the workers (lines 291 to 336).\<close>

fun cover_worker :: "labor_info list \<Rightarrow> worker \<Rightarrow> df_unit list \<times> rng \<Rightarrow> df_unit list \<times> rng" where
  "cover_worker ll w (us, g) =
     (if skilled w = 0 then
        enable_skilled ll w us
          (fold (sample_labor True ll) [0..<length ll] (unit_labor_NONE, 0, g))
      else if unskilled w = 0 then
        enable_unskilled w us
          (fold (sample_labor False ll) [0..<length ll] (unit_labor_NONE, 0, g))
      else (us, g))"

subsection \<open>\<open>check_dwarves\<close> and the update hook\<close>

text \<open>Lines 209 to 237: the counters are reset, then the units are counted.\<close>

definition recount :: "state \<Rightarrow> labor_info list \<times> worker list" where
  "recount s = count_units (units s) 0 (map (\<lambda>l. l\<lparr>active := 0\<rparr>) (lazy_labors s), [])"

text \<open>The loop over the labors (lines 239 to 284).\<close>

fun labor_loop :: "df_unit list \<Rightarrow> labor_info list \<times> worker list
    \<Rightarrow> worker list \<times> labor_info list \<times> df_unit list" where
  "labor_loop us (ll, workers) = fold check_labor [0..<length ll] (workers, ll, us)"

text \<open>The pass up to the end of the loop over the labors.\<close>

definition balance_labors :: "state \<Rightarrow> worker list \<times> labor_info list \<times> df_unit list" where
  "balance_labors s = labor_loop (units s) (recount s)"

text \<open>
  The loop over the workers (lines 286 to 337), and the globals and the world as the
  pass leaves them.
\<close>

fun store :: "state \<Rightarrow> labor_info list \<Rightarrow> df_unit list \<times> rng \<Rightarrow> state" where
  "store s ll (us, (f, n)) = s\<lparr>lazy_labors := ll, units := us, rand_calls := n\<rparr>"

fun cover_workers :: "state \<Rightarrow> worker list \<times> labor_info list \<times> df_unit list \<Rightarrow> state" where
  "cover_workers s (workers, ll, us) =
     store s ll (fold (cover_worker ll) workers (us, (rand_seq s, rand_calls s)))"

definition check_dwarves :: "state \<Rightarrow> state" where
  "check_dwarves s = cover_workers s (balance_labors s)"

definition plugin_onupdate :: "state \<Rightarrow> command_result \<times> state" where
  "plugin_onupdate s =
     (if enabled s \<and> fortress_mode s \<and> frame_counter s - last_frame_count s \<ge> DELTA_TICKS
      then (CR_OK, check_dwarves (s\<lparr>last_frame_count := frame_counter s\<rparr>))
      else (CR_OK, s))"

subsection \<open>Initialisation\<close>

text \<open>
  \<open>initialize_skills\<close>. The table \<open>ENUM_ATTR(job_skill, labor, skill)\<close> is generated
  from the data definitions; here it is the list \<open>skill_labor\<close>, with one entry per
  skill. \<open>MINE\<close>, \<open>CUTWOOD\<close> and \<open>HUNT\<close> are the numbers of these three labors.
\<close>

definition initialize_skills :: "unit_labor list \<Rightarrow> nat \<Rightarrow> nat \<Rightarrow> nat \<Rightarrow> labor_info list
    \<Rightarrow> labor_info list" where
  "initialize_skills skill_labor MINE CUTWOOD HUNT ll =
     (let ll1 = map (\<lambda>l. l\<lparr>skill := job_skill_NONE, uniformed := False,
                              minimum := 20, maximum := 40\<rparr>) ll;
          ll2 = fold (\<lambda>sk ll'. case skill_labor ! sk of
                                  unit_labor_NONE \<Rightarrow> ll'
                                | UnitLabor labor \<Rightarrow>
                                    ll'[labor := (ll' ! labor)\<lparr>skill := JobSkill sk,
                                                              minimum := 2, maximum := 7\<rparr>])
                  [0..<length skill_labor] ll1;
          ll3 = ll2[MINE := (ll2 ! MINE)\<lparr>uniformed := True\<rparr>];
          ll4 = ll3[CUTWOOD := (ll3 ! CUTWOOD)\<lparr>uniformed := True\<rparr>]
      in ll4[HUNT := (ll4 ! HUNT)\<lparr>uniformed := True\<rparr>])"
section \<open>Notions used by the properties\<close>

text \<open>The number of eligible units whose flag for a labor is set.\<close>

definition holders :: "df_unit list \<Rightarrow> nat \<Rightarrow> int" where
  "holders us labor = int (length (filter (\<lambda>u. can_work u \<and> labors u labor) us))"

text \<open>The workers of a vector whose unit has the flag for a labor set, in their order.\<close>

definition holding :: "df_unit list \<Rightarrow> nat \<Rightarrow> worker list \<Rightarrow> worker list" where
  "holding us labor ws = filter (\<lambda>w. labors (us ! unit_ix w) labor) ws"

text \<open>The positions of the units that can work, in the order of the unit vector.\<close>

definition eligible :: "df_unit list \<Rightarrow> nat list" where
  "eligible us = filter (\<lambda>j. can_work (us ! j)) [0..<length us]"

text \<open>
  What the loop over the labors maintains: the workers stand for the eligible units,
  each for one, and every counter is the number of eligible units that hold the labor.
\<close>

definition pass_inv :: "worker list \<Rightarrow> labor_info list \<Rightarrow> df_unit list \<Rightarrow> bool" where
  "pass_inv ws ll us \<longleftrightarrow>
     mset (map unit_ix ws) = mset (eligible us)
     \<and> (\<forall>l<length ll. active (ll ! l) = holders us l)"

text \<open>The workers, the labor table and the units when the loop reaches labor \<open>l\<close>.\<close>

definition at_labor :: "state \<Rightarrow> nat \<Rightarrow> worker list \<times> labor_info list \<times> df_unit list" where
  "at_labor s l = fold check_labor [0..<l] (snd (recount s), fst (recount s), units s)"

text \<open>The comparator that \<open>sortUnitsBySkill\<close> hands to the sort.\<close>

definition outranks :: "job_skill \<Rightarrow> worker \<Rightarrow> worker \<Rightarrow> bool" where
  "outranks sort_skill =
     (if sort_skill \<noteq> job_skill_NONE then sortBySkilledLabor else sortByUnskilledLabor)"

text \<open>
  A strict weak order, which \<open>std::sort\<close> requires of its comparator, and the shapes
  of which the comparators are made: the greater or the smaller integer key first, the
  comparison of a component, one comparison followed by a second where the first does
  not decide, and the comparison that never decides.
\<close>

definition strict_weak :: "('a \<Rightarrow> 'a \<Rightarrow> bool) \<Rightarrow> bool" where
  "strict_weak lt \<longleftrightarrow>
     (\<forall>a b. lt a b \<longrightarrow> \<not> lt b a) \<and> (\<forall>a b c. \<not> lt a b \<and> \<not> lt b c \<longrightarrow> \<not> lt a c)"

definition higher :: "('a \<Rightarrow> int) \<Rightarrow> 'a \<Rightarrow> 'a \<Rightarrow> bool" where
  "higher f a b \<longleftrightarrow> f b < f a"

definition lower :: "('a \<Rightarrow> int) \<Rightarrow> 'a \<Rightarrow> 'a \<Rightarrow> bool" where
  "lower f a b \<longleftrightarrow> f a < f b"

definition ranked_on :: "('a \<Rightarrow> 'b) \<Rightarrow> ('b \<Rightarrow> 'b \<Rightarrow> bool) \<Rightarrow> 'a \<Rightarrow> 'a \<Rightarrow> bool" where
  "ranked_on f lt a b \<longleftrightarrow> lt (f a) (f b)"

definition then_by :: "('a \<Rightarrow> 'a \<Rightarrow> bool) \<Rightarrow> ('a \<Rightarrow> 'a \<Rightarrow> bool) \<Rightarrow> 'a \<Rightarrow> 'a \<Rightarrow> bool" where
  "then_by p q a b \<longleftrightarrow> (if p a b then True else if p b a then False else q a b)"

definition tie :: "'a \<Rightarrow> 'a \<Rightarrow> bool" where
  "tie a b \<longleftrightarrow> False"

text \<open>
  The number of skilled labors that a unit holds; and the workers each of whom carries
  this number as the tally \<open>skilled\<close>.
\<close>

definition skilled_held :: "labor_info list \<Rightarrow> df_unit \<Rightarrow> int" where
  "skilled_held ll u =
     int (length (filter (\<lambda>k. skill (ll ! k) \<noteq> job_skill_NONE \<and> labors u k) [0..<length ll]))"

definition tallied :: "worker list \<Rightarrow> labor_info list \<Rightarrow> df_unit list \<Rightarrow> bool" where
  "tallied ws ll us \<longleftrightarrow> (\<forall>w\<in>set ws. skilled w = skilled_held ll (us ! unit_ix w))"

subsection \<open>Example worlds\<close>

text \<open>
  A citizen who can work, knows no skill and has no labor enabled, and one who knows
  skill 0 at rating 5.
\<close>

definition idle_dwarf :: df_unit where
  "idle_dwarf = \<lparr>current_soul = Some [], isCitizen = True, isAdult = True,
     profession_DRUNK = False, profession_military = False, labors = (\<lambda>_. False)\<rparr>"

definition novice_dwarf :: df_unit where
  "novice_dwarf = idle_dwarf\<lparr>current_soul :=
     Some [\<lparr>skill_id = JobSkill 0, rating = 5, experience = 0, rusty = 0, rust_counter = 0\<rparr>]\<rparr>"

text \<open>Labor entries with the bounds that \<open>initialize_skills\<close> sets.\<close>

definition skilled_default :: "nat \<Rightarrow> labor_info" where
  "skilled_default sk =
     \<lparr>skill = JobSkill sk, uniformed = False, minimum = 2, maximum = 7, active = 0\<rparr>"

definition unskilled_default :: labor_info where
  "unskilled_default =
     \<lparr>skill = job_skill_NONE, uniformed = False, minimum = 20, maximum = 40, active = 0\<rparr>"

definition fortress :: "labor_info list \<Rightarrow> df_unit list \<Rightarrow> state" where
  "fortress ll us = \<lparr>enabled = True, fortress_mode = True, frame_counter = 1200,
     last_frame_count = 0, lazy_labors = ll, units = us, rand_seq = (\<lambda>_. 0), rand_calls = 0\<rparr>"

text \<open>Eight idle dwarves and a single, skilled labor.\<close>

definition eight_idle :: state where
  "eight_idle = fortress [skilled_default 0] (replicate 8 idle_dwarf)"

text \<open>Twenty-three idle dwarves, an unskilled labor (number 0) and a skilled one (number 1).\<close>

definition crowd :: state where
  "crowd = fortress [unskilled_default, skilled_default 0] (replicate 23 idle_dwarf)"

text \<open>One dwarf with one skill, a skilled and an unskilled labor.\<close>

definition lone :: state where
  "lone = fortress [skilled_default 0, unskilled_default] [novice_dwarf]"

text \<open>
  Two records of the same skill that differ in rustiness only: \<open>rusty\<close> is 0 for the
  one that is not rusty and 1 for the rusty one.
\<close>

definition fresh_skill :: unit_skill where
  "fresh_skill = \<lparr>skill_id = JobSkill 0, rating = 3, experience = 100, rusty = 0, rust_counter = 0\<rparr>"

definition rusty_skill :: unit_skill where
  "rusty_skill = \<lparr>skill_id = JobSkill 0, rating = 3, experience = 100, rusty = 1, rust_counter = 0\<rparr>"

text \<open>
  A dwarf who knows skill 0 at a given rating and has labor 0 enabled or not, and no
  other labor.
\<close>

definition trained :: "int \<Rightarrow> bool \<Rightarrow> df_unit" where
  "trained r b = idle_dwarf\<lparr>current_soul :=
       Some [\<lparr>skill_id = JobSkill 0, rating = r, experience = 0, rusty = 0, rust_counter = 0\<rparr>],
     labors := array_set (\<lambda>_. False) 0 b\<rparr>"

text \<open>
  A labor with maximum 3 held by five dwarves, and a sixth, more skilled dwarf who does
  not hold it.
\<close>

definition overstaffed :: state where
  "overstaffed = fortress
     [\<lparr>skill = JobSkill 0, uniformed = False, minimum = 2, maximum = 3, active = 0\<rparr>]
     [trained 1 True, trained 5 True, trained 3 True, trained 4 True, trained 2 True,
      trained 9 False]"

text \<open>A labor within its bounds.\<close>

definition settled :: state where
  "settled = fortress [skilled_default 0] [trained 1 True, trained 5 True]"

text \<open>
  The labor table that \<open>initialize_skills\<close> builds from zeroed globals when there are
  three skills and three labors, skill \<open>i\<close> belongs to labor \<open>i\<close>, and the labors are
  \<open>MINE\<close>, \<open>CUTWOOD\<close> and \<open>HUNT\<close>; and a fortress with this table and one idle dwarf.
\<close>

definition blank_labor :: labor_info where
  "blank_labor = \<lparr>skill = job_skill_NONE, uniformed = False, minimum = 0, maximum = 0, active = 0\<rparr>"

definition uniformed_fort :: state where
  "uniformed_fort = fortress
     (initialize_skills [UnitLabor 0, UnitLabor 1, UnitLabor 2] 0 1 2 (replicate 3 blank_labor))
     [idle_dwarf]"

text \<open>
  A fortress with the same table: two idle dwarves; eight woodcutters, who know skill 1 at
  the ratings 8 down to 1 and hold \<open>CUTWOOD\<close>; two hunters, who hold \<open>HUNT\<close>; and a
  soldier on duty, who holds \<open>MINE\<close>.
\<close>

definition cutter :: "int \<Rightarrow> df_unit" where
  "cutter r = idle_dwarf\<lparr>current_soul :=
       Some [\<lparr>skill_id = JobSkill 1, rating = r, experience = 0, rusty = 0, rust_counter = 0\<rparr>],
     labors := array_set (\<lambda>_. False) 1 True\<rparr>"

definition hunter :: df_unit where
  "hunter = idle_dwarf\<lparr>labors := array_set (\<lambda>_. False) 2 True\<rparr>"

definition soldier :: df_unit where
  "soldier = idle_dwarf\<lparr>profession_military := True, labors := array_set (\<lambda>_. False) 0 True\<rparr>"

definition guild :: state where
  "guild = fortress
     (initialize_skills [UnitLabor 0, UnitLabor 1, UnitLabor 2] 0 1 2 (replicate 3 blank_labor))
     [idle_dwarf, idle_dwarf, cutter 8, cutter 7, cutter 6, cutter 5, cutter 4, cutter 3,
      cutter 2, cutter 1, hunter, hunter, soldier]"

section \<open>The skill comparator\<close>

text \<open>
  Claim C5 as stated, that the record that is not rusty outranks the rusty one, fails:
  of two records equal in rating and experience the rusty one is ranked above the
  other.
\<close>

theorem moreSkilled_fresh_counterexample:
  "rating fresh_skill = rating rusty_skill \<and> experience fresh_skill = experience rusty_skill
   \<and> rusty fresh_skill = 0 \<and> rusty rusty_skill = 1
   \<and> \<not> moreSkilled (Some fresh_skill) (Some rusty_skill)
   \<and> moreSkilled (Some rusty_skill) (Some fresh_skill)"
  by (simp add: fresh_skill_def rusty_skill_def)

text \<open>
  Claim C5, amended: for two present skill records that are equal on rating and
  experience and differ in rustiness, \<open>moreSkilled\<close> ranks the record with the greater
  \<open>rusty\<close> value above the other, so a rusty record outranks one that is not rusty.
\<close>

theorem moreSkilled_rusty_wins:
  assumes "rating a = rating b" and "experience a = experience b" and "rusty a \<noteq> rusty b"
  shows "moreSkilled (Some a) (Some b) = (rusty b < rusty a)"
  using assms by simp

theorem moreSkilled_rusty_wins_witness:
  "moreSkilled (Some rusty_skill) (Some fresh_skill) = (rusty fresh_skill < rusty rusty_skill)
   \<and> rusty fresh_skill < rusty rusty_skill"
  using moreSkilled_rusty_wins [of rusty_skill fresh_skill]
  by (simp add: fresh_skill_def rusty_skill_def)

section \<open>The update hook\<close>

text \<open>
  Claim C9: \<open>plugin_onupdate\<close> always returns \<open>CR_OK\<close>. When the plugin is enabled, the
  game is in fortress mode and at least 1200 ticks have passed since the last run, it
  records the tick and runs \<open>check_dwarves\<close>; in every other case it leaves the state
  as it is.
\<close>

theorem plugin_onupdate_runs_when_due:
  "fst (plugin_onupdate s) = CR_OK
   \<and> (enabled s \<and> fortress_mode s \<and> 1200 \<le> frame_counter s - last_frame_count s
        \<longrightarrow> snd (plugin_onupdate s) = check_dwarves (s\<lparr>last_frame_count := frame_counter s\<rparr>))
   \<and> (\<not> (enabled s \<and> fortress_mode s \<and> 1200 \<le> frame_counter s - last_frame_count s)
        \<longrightarrow> snd (plugin_onupdate s) = s)"
  by (simp add: plugin_onupdate_def DELTA_TICKS_def)

theorem plugin_onupdate_runs_when_due_witness:
  "snd (plugin_onupdate eight_idle) = check_dwarves (eight_idle\<lparr>last_frame_count := 1200\<rparr>)
   \<and> snd (plugin_onupdate (eight_idle\<lparr>frame_counter := 1199\<rparr>)) = eight_idle\<lparr>frame_counter := 1199\<rparr>
   \<and> snd (plugin_onupdate (eight_idle\<lparr>enabled := False\<rparr>)) = eight_idle\<lparr>enabled := False\<rparr>
   \<and> snd (plugin_onupdate (eight_idle\<lparr>fortress_mode := False\<rparr>)) = eight_idle\<lparr>fortress_mode := False\<rparr>
   \<and> fst (plugin_onupdate eight_idle) = CR_OK
   \<and> fst (plugin_onupdate (eight_idle\<lparr>frame_counter := 1199\<rparr>)) = CR_OK"
  using plugin_onupdate_runs_when_due [of eight_idle]
    plugin_onupdate_runs_when_due [of "eight_idle\<lparr>frame_counter := 1199\<rparr>"]
    plugin_onupdate_runs_when_due [of "eight_idle\<lparr>enabled := False\<rparr>"]
    plugin_onupdate_runs_when_due [of "eight_idle\<lparr>fortress_mode := False\<rparr>"]
  by (simp add: eight_idle_def fortress_def)

section \<open>What each step of the pass changes\<close>

text \<open>
  The assignments to a flag and to a counter, and the two walks, change the flag and the
  counter of the labor at hand and nothing else; the walk of the deficit correction
  only sets flags.
\<close>

lemma length_set_labor [simp]: "length (set_labor us i labor b) = length us"
  by (simp add: set_labor_def)

lemma labors_set_labor:
  "labors (set_labor us i labor b ! j) l =
     (if j = i \<and> i < length us \<and> l = labor then b else labors (us ! j) l)"
  by (cases "i < length us")
     (auto simp: set_labor_def set_flag_def array_set_def nth_list_update list_update_beyond)

lemma can_work_set_flag [simp]: "can_work (set_flag labor b u) = can_work u"
  by (simp add: set_flag_def can_work_def)

lemma can_work_set_labor [simp]: "can_work (set_labor us i labor b ! j) = can_work (us ! j)"
  by (cases "i < length us") (auto simp: set_labor_def nth_list_update list_update_beyond)

lemma soul_skills_set_flag [simp]: "soul_skills (set_flag labor b u) = soul_skills u"
  by (simp add: set_flag_def soul_skills_def)

lemma soul_skills_set_labor [simp]:
  "soul_skills (set_labor us i labor b ! j) = soul_skills (us ! j)"
  by (cases "i < length us") (auto simp: set_labor_def nth_list_update list_update_beyond)

lemma length_add_active [simp]: "length (add_active ll labor d) = length ll"
  by (simp add: add_active_def)

lemma add_active_nth:
  "add_active ll labor d ! k =
     (if k = labor \<and> labor < length ll then (ll ! k)\<lparr>active := active (ll ! k) + d\<rparr> else ll ! k)"
  by (cases "labor < length ll") (auto simp: add_active_def list_update_beyond)

lemma add_active_static [simp]: "(add_active ll labor d ! k)\<lparr>active := 0\<rparr> = (ll ! k)\<lparr>active := 0\<rparr>"
  by (simp add: add_active_nth)

lemma keep_worker_fst [simp]: "fst (keep_worker w r) = w # fst r"
  by (cases r) simp

lemma keep_worker_snd [simp]: "snd (keep_worker w r) = snd r"
  by (cases r) simp

text \<open>The units after a walk.\<close>

lemma add_labor_length [simp]:
  "length (snd (snd (add_labor labor ws needed ll us))) = length us"
  by (induction ws arbitrary: needed ll us) auto

lemma add_labor_flags_other:
  "l \<noteq> labor \<Longrightarrow> labors (snd (snd (add_labor labor ws needed ll us)) ! j) l = labors (us ! j) l"
  by (induction ws arbitrary: needed ll us) (auto simp: labors_set_labor)

lemma add_labor_flags_kept:
  "labors (us ! j) l \<Longrightarrow> labors (snd (snd (add_labor labor ws needed ll us)) ! j) l"
  by (induction ws arbitrary: needed ll us) (auto simp: labors_set_labor)

lemma remove_labor_length [simp]:
  "length (snd (snd (remove_labor labor ws remaining excess ll us))) = length us"
  by (induction ws arbitrary: remaining excess ll us) auto

lemma remove_labor_flags_other:
  "l \<noteq> labor \<Longrightarrow>
   labors (snd (snd (remove_labor labor ws remaining excess ll us)) ! j) l = labors (us ! j) l"
  by (induction ws arbitrary: remaining excess ll us) (auto simp: labors_set_labor)

text \<open>The labor table after a walk.\<close>

lemma add_labor_table_length [simp]:
  "length (fst (snd (add_labor labor ws needed ll us))) = length ll"
  by (induction ws arbitrary: needed ll us) auto

lemma add_labor_table_other:
  "k \<noteq> labor \<Longrightarrow> fst (snd (add_labor labor ws needed ll us)) ! k = ll ! k"
  by (induction ws arbitrary: needed ll us) (auto simp: add_active_nth)

lemma add_labor_table_static [simp]:
  "(fst (snd (add_labor labor ws needed ll us)) ! k)\<lparr>active := 0\<rparr> = (ll ! k)\<lparr>active := 0\<rparr>"
  by (induction ws arbitrary: needed ll us) auto

lemma remove_labor_table_length [simp]:
  "length (fst (snd (remove_labor labor ws remaining excess ll us))) = length ll"
  by (induction ws arbitrary: remaining excess ll us) auto

lemma remove_labor_table_other:
  "k \<noteq> labor \<Longrightarrow> fst (snd (remove_labor labor ws remaining excess ll us)) ! k = ll ! k"
  by (induction ws arbitrary: remaining excess ll us) (auto simp: add_active_nth)

lemma remove_labor_table_static [simp]:
  "(fst (snd (remove_labor labor ws remaining excess ll us)) ! k)\<lparr>active := 0\<rparr> = (ll ! k)\<lparr>active := 0\<rparr>"
  by (induction ws arbitrary: remaining excess ll us) auto

section \<open>Flags are only cleared above the maximum\<close>

lemma check_labor_flags_other:
  "l \<noteq> k \<Longrightarrow> labors (snd (snd (check_labor k (ws, ll, us))) ! j) l = labors (us ! j) l"
  by (simp add: add_labor_flags_other remove_labor_flags_other)

lemma check_labor_flags_kept:
  "\<not> maximum (ll ! k) < active (ll ! k) \<Longrightarrow> labors (us ! j) l \<Longrightarrow>
   labors (snd (snd (check_labor k (ws, ll, us))) ! j) l"
  by (simp add: add_labor_flags_kept)

lemma check_labor_table_other:
  "l \<noteq> k \<Longrightarrow> fst (snd (check_labor k (ws, ll, us))) ! l = ll ! l"
  by (simp add: add_labor_table_other remove_labor_table_other)

lemma check_labor_table_length [simp]:
  "length (fst (snd (check_labor k (ws, ll, us)))) = length ll"
  by simp

lemma check_labor_length [simp]:
  "length (snd (snd (check_labor k (ws, ll, us)))) = length us"
  by simp

lemma labor_loop_flags_kept:
  "distinct ks \<Longrightarrow> (l \<in> set ks \<longrightarrow> \<not> maximum (ll ! l) < active (ll ! l)) \<Longrightarrow>
   labors (us ! j) l \<Longrightarrow>
   labors (snd (snd (fold check_labor ks (ws, ll, us))) ! j) l"
proof (induction ks arbitrary: ws ll us)
  case Nil
  then show ?case by simp
next
  case (Cons k ks)
  obtain ws1 ll1 us1 where step: "check_labor k (ws, ll, us) = (ws1, ll1, us1)"
    by (cases "check_labor k (ws, ll, us)")
  have kept: "labors (us1 ! j) l"
  proof (cases "l = k")
    case True
    with Cons.prems have "\<not> maximum (ll ! k) < active (ll ! k)" by simp
    from check_labor_flags_kept [OF this Cons.prems(3), of ws] step show ?thesis by simp
  next
    case False
    from check_labor_flags_other [OF False, of ws ll us j] step Cons.prems(3)
    show ?thesis by simp
  qed
  have later: "l \<in> set ks \<longrightarrow> \<not> maximum (ll1 ! l) < active (ll1 ! l)"
  proof
    assume mem: "l \<in> set ks"
    with Cons.prems(1) have ne: "l \<noteq> k" by auto
    from check_labor_table_other [OF ne, of ws ll us] step have "ll1 ! l = ll ! l" by simp
    with Cons.prems(2) mem show "\<not> maximum (ll1 ! l) < active (ll1 ! l)" by simp
  qed
  from Cons.prems(1) have "distinct ks" by simp
  from Cons.IH [OF this later kept, of ws1] step show ?case by simp
qed

lemma enable_selected_flags_kept:
  "labors (us ! j) l \<Longrightarrow> labors (enable_selected us i selected ! j) l"
  by (cases selected) (simp_all add: enable_selected_def labors_set_labor)

lemma cover_worker_flags_kept:
  "labors (us ! j) l \<Longrightarrow> labors (fst (cover_worker ll w (us, g)) ! j) l"
proof -
  assume held: "labors (us ! j) l"
  have a: "labors (fst (enable_skilled ll w us r) ! j) l" for r
    using held by (cases r) (simp add: enable_selected_flags_kept Let_def)
  have b: "labors (fst (enable_unskilled w us r) ! j) l" for r
    using held by (cases r) (simp add: enable_selected_flags_kept)
  show ?thesis using a b held by simp
qed

lemma cover_workers_flags_kept:
  "labors (fst x ! j) l \<Longrightarrow> labors (fst (fold (cover_worker ll) ws x) ! j) l"
proof (induction ws arbitrary: x)
  case Nil
  then show ?case by simp
next
  case (Cons w ws)
  obtain us g where x: "x = (us, g)" by (cases x)
  with Cons.prems have held: "labors (us ! j) l" by simp
  have "labors (fst (cover_worker ll w (us, g)) ! j) l"
    by (rule cover_worker_flags_kept [OF held])
  from Cons.IH [OF this] x show ?case by simp
qed

lemma units_store [simp]: "units (store s ll x) = fst x"
  by (cases x; cases "snd x") auto

lemma units_cover_workers:
  "units (cover_workers s (ws, ll, us)) = fst (fold (cover_worker ll) ws (us, (rand_seq s, rand_calls s)))"
  by simp

text \<open>
  Claim C10: the only assignment that clears a flag is the one of the surplus walk,
  which runs for a labor only when its active count exceeds its maximum. So for a labor
  whose active count, as the recount leaves it, does not exceed the maximum, every unit
  that holds the labor before the pass holds it after the pass: the deficit walk and the
  safety net only set flags (\<open>add_labor_flags_kept\<close>, \<open>cover_worker_flags_kept\<close>), and
  the turns of the other labors do not touch this one (\<open>check_labor_flags_other\<close>).
\<close>

theorem pass_keeps_flags_within_maximum:
  assumes "\<not> maximum (fst (recount s) ! l) < active (fst (recount s) ! l)"
    and "labors (units s ! j) l"
  shows "labors (units (check_dwarves s) ! j) l"
proof -
  obtain ll0 ws0 where rc: "recount s = (ll0, ws0)" by (cases "recount s")
  obtain ws ll us where bl: "fold check_labor [0..<length ll0] (ws0, ll0, units s) = (ws, ll, us)"
    by (cases "fold check_labor [0..<length ll0] (ws0, ll0, units s)")
  from assms(1) rc have "l \<in> set [0..<length ll0] \<longrightarrow> \<not> maximum (ll0 ! l) < active (ll0 ! l)"
    by simp
  from labor_loop_flags_kept [OF distinct_upt this assms(2), of ws0] bl
  have "labors (us ! j) l" by simp
  then have "labors (fst (fold (cover_worker ll) ws (us, (rand_seq s, rand_calls s))) ! j) l"
    by (simp add: cover_workers_flags_kept)
  with rc bl show ?thesis
    by (simp add: check_dwarves_def balance_labors_def)
qed

theorem pass_keeps_flags_within_maximum_witness:
  "\<not> maximum (fst (recount settled) ! 0) < active (fst (recount settled) ! 0)
   \<and> labors (units settled ! 1) 0
   \<and> labors (units (check_dwarves settled) ! 1) 0"
proof -
  have h1: "\<not> maximum (fst (recount settled) ! 0) < active (fst (recount settled) ! 0)"
    by code_simp
  have h2: "labors (units settled ! 1) 0" by code_simp
  from pass_keeps_flags_within_maximum [OF h1 h2] h1 h2 show ?thesis by blast
qed

section \<open>The recount\<close>

text \<open>
  After the recount every counter is the number of eligible units that hold the labor,
  and the other fields of the labor table are as before.
\<close>

lemma push_back_fst [simp]: "fst (push_back ws r) = fst r"
  by (cases r) simp

lemma push_back_snd [simp]: "snd (push_back ws r) = ws @ [snd r]"
  by (cases r) simp

lemma count_labor_length [simp]: "length (fst (count_labor d k r)) = length (fst r)"
  by (cases r) simp

lemma count_labor_static [simp]:
  "(fst (count_labor d k r) ! l)\<lparr>active := 0\<rparr> = (fst r ! l)\<lparr>active := 0\<rparr>"
  by (cases r; cases "k < length (fst r)"; cases "l = k") (auto simp: list_update_beyond)

lemma count_labor_active:
  "k < length (fst r) \<Longrightarrow>
   active (fst (count_labor d k r) ! l) = active (fst r ! l) + (if l = k \<and> labors d l then 1 else 0)"
  by (cases r) auto

lemma count_labor_unit_ix [simp]: "unit_ix (snd (count_labor d k r)) = unit_ix (snd r)"
  by (cases r) (simp add: Let_def)

lemma count_labors_length [simp]: "length (fst (fold (count_labor d) ks r)) = length (fst r)"
  by (induction ks arbitrary: r) simp_all

lemma count_labors_static [simp]:
  "(fst (fold (count_labor d) ks r) ! l)\<lparr>active := 0\<rparr> = (fst r ! l)\<lparr>active := 0\<rparr>"
  by (induction ks arbitrary: r) simp_all

lemma count_labors_unit_ix [simp]: "unit_ix (snd (fold (count_labor d) ks r)) = unit_ix (snd r)"
  by (induction ks arbitrary: r) simp_all

lemma count_labors_active:
  "distinct ks \<Longrightarrow> \<forall>k\<in>set ks. k < length (fst r) \<Longrightarrow>
   active (fst (fold (count_labor d) ks r) ! l)
     = active (fst r ! l) + (if l \<in> set ks \<and> labors d l then 1 else 0)"
proof (induction ks arbitrary: r)
  case Nil
  then show ?case by simp
next
  case (Cons k ks)
  from Cons.prems have k: "k < length (fst r)" and ks: "distinct ks"
    and rest: "\<forall>k'\<in>set ks. k' < length (fst (count_labor d k r))" and fresh: "k \<notin> set ks"
    by simp_all
  from Cons.IH [OF ks rest] count_labor_active [OF k, of d l] fresh
  show ?case by auto
qed

lemma count_units_length [simp]: "length (fst (count_units ds i r)) = length (fst r)"
proof (induction ds arbitrary: i r)
  case Nil
  then show ?case by (cases r) simp
next
  case (Cons d ds)
  then show ?case by (cases r) simp
qed

lemma count_units_static [simp]:
  "(fst (count_units ds i r) ! l)\<lparr>active := 0\<rparr> = (fst r ! l)\<lparr>active := 0\<rparr>"
proof (induction ds arbitrary: i r)
  case Nil
  then show ?case by (cases r) simp
next
  case (Cons d ds)
  then show ?case by (cases r) simp
qed

lemma count_units_active:
  "l < length (fst r) \<Longrightarrow>
   active (fst (count_units ds i r) ! l) = active (fst r ! l) + holders ds l"
proof (induction ds arbitrary: i r)
  case Nil
  then show ?case by (cases r) (simp add: holders_def)
next
  case (Cons d ds)
  obtain ll ws where r: "r = (ll, ws)" by (cases r)
  show ?case
  proof (cases "can_work d")
    case False
    with Cons r show ?thesis by (simp add: holders_def)
  next
    case True
    let ?r = "push_back ws (fold (count_labor d) [0..<length ll] (ll, new_worker i))"
    from Cons.prems r have len: "l < length (fst ?r)" by simp
    have "active (fst ?r ! l) = active (ll ! l) + (if labors d l then 1 else 0)"
      using count_labors_active [of "[0..<length ll]" "(ll, new_worker i)" d l] Cons.prems r
      by simp
    with Cons.IH [OF len, of "Suc i"] True r show ?thesis by (simp add: holders_def)
  qed
qed

lemma recount_length [simp]: "length (fst (recount s)) = length (lazy_labors s)"
  by (simp add: recount_def)

lemma recount_static:
  "l < length (lazy_labors s) \<Longrightarrow> (fst (recount s) ! l)\<lparr>active := 0\<rparr> = (lazy_labors s ! l)\<lparr>active := 0\<rparr>"
  by (simp add: recount_def)

lemma recount_active:
  "l < length (lazy_labors s) \<Longrightarrow> active (fst (recount s) ! l) = holders (units s) l"
  by (simp add: recount_def count_units_active)

lemma recount_maximum:
  "l < length (lazy_labors s) \<Longrightarrow> maximum (fst (recount s) ! l) = maximum (lazy_labors s ! l)"
  using recount_static [of l s] by (metis labor_info.select_convs(4) labor_info.surjective labor_info.update_convs(5))

section \<open>Sorting the workers\<close>

text \<open>
  \<open>sortUnitsBySkill\<close> permutes the workers: their units are the same, each as often as
  before, and as many of them hold a labor.
\<close>

lemma mset_insert_by [simp]: "mset (insert_by lt x xs) = add_mset x (mset xs)"
  by (induction xs) simp_all

lemma mset_sort_by [simp]: "mset (sort_by lt xs) = mset xs"
  by (induction xs) (simp_all add: sort_by_def)

lemma scan_skill_fields [simp]:
  "unit_ix (scan_skill sk r w) = unit_ix w"
  "skilled (scan_skill sk r w) = skilled w"
  "unskilled (scan_skill sk r w) = unskilled w"
  "uniform (scan_skill sk r w) = uniform w"
  by (simp_all add: scan_skill_def Let_def)

lemma scan_skills_fields [simp]:
  "unit_ix (fold (scan_skill sk) rs w) = unit_ix w"
  "skilled (fold (scan_skill sk) rs w) = skilled w"
  "unskilled (fold (scan_skill sk) rs w) = unskilled w"
  "uniform (fold (scan_skill sk) rs w) = uniform w"
  by (induction rs arbitrary: w; simp)+

lemma profile_worker_fields [simp]:
  "unit_ix (profile_worker us sk w) = unit_ix w"
  "skilled (profile_worker us sk w) = skilled w"
  "unskilled (profile_worker us sk w) = unskilled w"
  "uniform (profile_worker us sk w) = uniform w"
  by (simp_all add: profile_worker_def)

lemma mset_sortUnitsBySkill:
  "mset (sortUnitsBySkill us ws sk) = image_mset (profile_worker us sk) (mset ws)"
  by (simp add: sortUnitsBySkill_def)

lemma mset_unit_ix_sortUnitsBySkill:
  "mset (map unit_ix (sortUnitsBySkill us ws sk)) = mset (map unit_ix ws)"
proof -
  have "mset (map unit_ix (sortUnitsBySkill us ws sk))
          = image_mset unit_ix (mset (sortUnitsBySkill us ws sk))"
    by simp
  also have "\<dots> = image_mset unit_ix (image_mset (profile_worker us sk) (mset ws))"
    by (simp only: mset_sortUnitsBySkill)
  also have "\<dots> = mset (map unit_ix ws)"
    by (simp add: multiset.map_comp comp_def)
  finally show ?thesis .
qed

lemma distinct_sortUnitsBySkill:
  "distinct (map unit_ix (sortUnitsBySkill us ws sk)) = distinct (map unit_ix ws)"
  by (rule mset_eq_imp_distinct_iff [OF mset_unit_ix_sortUnitsBySkill])

lemma set_unit_ix_sortUnitsBySkill:
  "unit_ix ` set (sortUnitsBySkill us ws sk) = unit_ix ` set ws"
  using mset_eq_setD [OF mset_unit_ix_sortUnitsBySkill, of us ws sk] by simp

lemma length_holding_ixs:
  "length (holding us l ws) = size (filter_mset (\<lambda>i. labors (us ! i) l) (mset (map unit_ix ws)))"
proof -
  have "length (holding us l ws) = length (filter (\<lambda>i. labors (us ! i) l) (map unit_ix ws))"
    by (simp add: holding_def filter_map comp_def)
  also have "\<dots> = size (mset (filter (\<lambda>i. labors (us ! i) l) (map unit_ix ws)))"
    by (simp only: size_mset)
  also have "\<dots> = size (filter_mset (\<lambda>i. labors (us ! i) l) (mset (map unit_ix ws)))"
    by (simp only: mset_filter)
  finally show ?thesis .
qed

lemma length_holding_sortUnitsBySkill:
  "length (holding us l (sortUnitsBySkill us' ws sk)) = length (holding us l ws)"
  by (simp only: length_holding_ixs mset_unit_ix_sortUnitsBySkill)

text \<open>
  \<open>moreSkilled\<close> and the two worker comparators are strict weak orders, and the sorted
  vector is ranked: no worker outranks one that stands before it.
\<close>

lemma strict_weak_higher: "strict_weak (higher f)"
  by (auto simp: strict_weak_def higher_def)

lemma strict_weak_lower: "strict_weak (lower f)"
  by (auto simp: strict_weak_def lower_def)

lemma strict_weak_tie: "strict_weak tie"
  by (simp add: strict_weak_def tie_def)

lemma strict_weak_ranked_on: "strict_weak lt \<Longrightarrow> strict_weak (ranked_on f lt)"
  unfolding strict_weak_def ranked_on_def by blast

lemma then_by_iff: "then_by p q a b \<longleftrightarrow> p a b \<or> (\<not> p b a \<and> q a b)"
  by (simp add: then_by_def)

lemma strict_weak_then_by:
  assumes "strict_weak p" and "strict_weak q"
  shows "strict_weak (then_by p q)"
proof -
  from assms have pa: "\<And>a b. p a b \<Longrightarrow> \<not> p b a"
    and pt: "\<And>a b c. \<not> p a b \<Longrightarrow> \<not> p b c \<Longrightarrow> \<not> p a c"
    and qa: "\<And>a b. q a b \<Longrightarrow> \<not> q b a"
    and qt: "\<And>a b c. \<not> q a b \<Longrightarrow> \<not> q b c \<Longrightarrow> \<not> q a c"
    unfolding strict_weak_def by blast+
  have asym: "\<not> then_by p q b a" if "then_by p q a b" for a b
    using that pa [of a b] pa [of b a] qa [of a b] unfolding then_by_iff by blast
  have trans: "\<not> then_by p q a c" if ab: "\<not> then_by p q a b" and bc: "\<not> then_by p q b c" for a b c
  proof (cases "p b a \<or> p c b")
    case True
    have "p c a"
    proof (cases "p b a")
      case True
      from bc have "\<not> p b c" unfolding then_by_iff by blast
      with pt [of b c a] True show ?thesis by blast
    next
      case False
      with \<open>p b a \<or> p c b\<close> have "p c b" by blast
      from ab have "\<not> p a b" unfolding then_by_iff by blast
      with pt [of c a b] \<open>p c b\<close> show ?thesis by blast
    qed
    with pa [of c a] show ?thesis unfolding then_by_iff by blast
  next
    case False
    with ab bc have n: "\<not> p a b" "\<not> p b c" "\<not> q a b" "\<not> q b c"
      unfolding then_by_iff by blast+
    from pt [OF n(1) n(2)] qt [OF n(3) n(4)] show ?thesis unfolding then_by_iff by blast
  qed
  show ?thesis
    unfolding strict_weak_def using asym trans by blast
qed

lemma moreSkilled_Some:
  "moreSkilled (Some a) (Some b) =
     then_by (higher rating) (then_by (higher experience)
       (then_by (higher rusty) (then_by (higher rust_counter) tie))) a b"
  by (simp add: then_by_def higher_def tie_def)

lemma strict_weak_higherSkilled: "strict_weak moreSkilled"
proof -
  have "strict_weak (then_by (higher rating) (then_by (higher experience)
          (then_by (higher rusty) (then_by (higher rust_counter) (tie :: unit_skill \<Rightarrow> _)))))"
    by (intro strict_weak_then_by strict_weak_higher strict_weak_tie)
  then have asym: "\<And>a b. moreSkilled (Some a) (Some b) \<Longrightarrow> \<not> moreSkilled (Some b) (Some a)"
    and trans: "\<And>a b c. \<not> moreSkilled (Some a) (Some b) \<Longrightarrow> \<not> moreSkilled (Some b) (Some c)
                  \<Longrightarrow> \<not> moreSkilled (Some a) (Some c)"
    unfolding strict_weak_def moreSkilled_Some by blast+
  have a: "\<not> moreSkilled b a" if "moreSkilled a b" for a b
    using that asym by (cases a; cases b) auto
  have t: "\<not> moreSkilled a c" if "\<not> moreSkilled a b" and "\<not> moreSkilled b c" for a b c
  proof (cases a)
    case None
    then show ?thesis by simp
  next
    case (Some x)
    with that(1) obtain y where b: "b = Some y" by (cases b) auto
    with that(2) obtain z where c: "c = Some z" by (cases c) auto
    from that Some b c trans [of x y z] show ?thesis by blast
  qed
  show ?thesis unfolding strict_weak_def using a t by blast
qed

lemma sortBySkilledLabor_lex:
  "sortBySkilledLabor =
     then_by (ranked_on this_skill moreSkilled) (then_by (lower skilled)
       (then_by (ranked_on other_skill moreSkilled) (then_by (lower unskilled)
         (then_by (lower total_skill) tie))))"
  by (intro ext) (simp add: sortBySkilledLabor_def then_by_def ranked_on_def lower_def tie_def)

lemma sortByUnskilledLabor_lex:
  "sortByUnskilledLabor =
     then_by (lower unskilled) (then_by (ranked_on other_skill moreSkilled)
       (then_by (lower skilled) (then_by (lower total_skill) tie)))"
  by (intro ext) (simp add: sortByUnskilledLabor_def then_by_def ranked_on_def lower_def tie_def)

lemma strict_weak_sortBySkilledLabor: "strict_weak sortBySkilledLabor"
  unfolding sortBySkilledLabor_lex
  by (intro strict_weak_then_by strict_weak_lower strict_weak_tie strict_weak_ranked_on
        strict_weak_higherSkilled)

lemma strict_weak_sortByUnskilledLabor: "strict_weak sortByUnskilledLabor"
  unfolding sortByUnskilledLabor_lex
  by (intro strict_weak_then_by strict_weak_lower strict_weak_tie strict_weak_ranked_on
        strict_weak_higherSkilled)

lemma set_insert_by: "set (insert_by lt x xs) = insert x (set xs)"
  by (induction xs) auto

lemma sorted_insert_by:
  assumes "strict_weak lt" and "sorted_wrt (\<lambda>a b. \<not> lt b a) xs"
  shows "sorted_wrt (\<lambda>a b. \<not> lt b a) (insert_by lt x xs)"
  using assms(2)
proof (induction xs)
  case Nil
  then show ?case by simp
next
  case (Cons y ys)
  from assms(1) have asym: "\<And>a b. lt a b \<Longrightarrow> \<not> lt b a"
    and trans: "\<And>a b c. \<not> lt a b \<Longrightarrow> \<not> lt b c \<Longrightarrow> \<not> lt a c"
    unfolding strict_weak_def by blast+
  show ?case
  proof (cases "lt y x")
    case True
    from Cons have ih: "sorted_wrt (\<lambda>a b. \<not> lt b a) (insert_by lt x ys)" by simp
    have "\<forall>z\<in>set (insert_by lt x ys). \<not> lt z y"
    proof
      fix z assume "z \<in> set (insert_by lt x ys)"
      then have "z = x \<or> z \<in> set ys"
        by (simp add: set_insert_by)
      with Cons.prems asym [OF True] show "\<not> lt z y" by auto
    qed
    with ih True show ?thesis by simp
  next
    case False
    have "\<forall>z\<in>set ys. \<not> lt z x"
    proof
      fix z assume "z \<in> set ys"
      with Cons.prems have "\<not> lt z y" by simp
      from trans [OF this False] show "\<not> lt z x" .
    qed
    with False Cons.prems show ?thesis by simp
  qed
qed

lemma sorted_sort_by:
  "strict_weak lt \<Longrightarrow> sorted_wrt (\<lambda>a b. \<not> lt b a) (sort_by lt xs)"
  by (induction xs) (simp_all add: sort_by_def sorted_insert_by)

lemma strict_weak_outranks: "strict_weak (outranks sk)"
  by (simp add: outranks_def strict_weak_sortBySkilledLabor strict_weak_sortByUnskilledLabor)

lemma sorted_sortUnitsBySkill:
  "sorted_wrt (\<lambda>a b. \<not> outranks sk b a) (sortUnitsBySkill us ws sk)"
  using sorted_sort_by [OF strict_weak_outranks, of sk "map (profile_worker us sk) ws"]
  by (simp add: sortUnitsBySkill_def outranks_def)

section \<open>Surplus correction\<close>

text \<open>
  The surplus walk over workers of distinct units, when \<open>excess\<close> is the number of
  holders beyond \<open>remaining\<close>: it clears the flag of exactly the holders after the
  first \<open>remaining\<close> ones.
\<close>

lemma holding_Cons:
  "holding us l (w # ws) = (if labors (us ! unit_ix w) l then w # holding us l ws else holding us l ws)"
  by (simp add: holding_def)

lemma holding_set_labor:
  "i \<notin> unit_ix ` set ws \<Longrightarrow> holding (set_labor us i l' b) l ws = holding us l ws"
  unfolding holding_def by (rule filter_cong) (auto simp: labors_set_labor)

lemma remove_labor_units:
  assumes "distinct (map unit_ix ws)" and "\<forall>w\<in>set ws. unit_ix w < length us"
    and "0 \<le> r" and "e = int (length (holding us l ws)) - r"
  shows "labors (snd (snd (remove_labor l ws r e ll us)) ! j) l' =
           (if l' = l \<and> j \<in> unit_ix ` set (drop (nat r) (holding us l ws)) then False
            else labors (us ! j) l')"
  using assms
proof (induction ws arbitrary: r e ll us)
  case Nil
  then show ?case by (simp add: holding_def)
next
  case (Cons w ws)
  from Cons.prems have dist: "distinct (map unit_ix ws)" and fresh: "unit_ix w \<notin> unit_ix ` set ws"
    and range: "\<forall>w\<in>set ws. unit_ix w < length us" and w: "unit_ix w < length us"
    by auto
  show ?case
  proof (cases "labors (us ! unit_ix w) l")
    case False
    with Cons.prems have e: "e = int (length (holding us l ws)) - r"
      by (simp add: holding_Cons)
    from Cons.IH [OF dist range Cons.prems(3) e, of ll] False
    show ?thesis by (simp add: holding_Cons)
  next
    case True
    then have H: "holding us l (w # ws) = w # holding us l ws"
      by (simp add: holding_Cons)
    show ?thesis
    proof (cases "r = 0")
      case False
      with Cons.prems(3) have r1: "0 \<le> r - 1" and pos: "0 < r" by simp_all
      from Cons.prems(4) H have e: "e = int (length (holding us l ws)) - (r - 1)" by simp
      from pos have d: "drop (nat r) (w # holding us l ws) = drop (nat (r - 1)) (holding us l ws)"
        by (simp add: drop_Cons' nat_diff_distrib)
      from Cons.IH [OF dist range r1 e, of ll] True False H d
      show ?thesis by simp
    next
      case r0: True
      let ?us = "set_labor us (unit_ix w) l False"
      have same: "holding ?us l ws = holding us l ws"
        by (rule holding_set_labor [OF fresh])
      show ?thesis
      proof (cases "e - 1 = 0")
        case True
        with Cons.prems(4) H r0 have "holding us l ws = []" by simp
        with True r0 H \<open>labors (us ! unit_ix w) l\<close> w
        show ?thesis by (auto simp: labors_set_labor)
      next
        case False
        have range': "\<forall>w\<in>set ws. unit_ix w < length ?us" using range by simp
        have r': "(0::int) \<le> 0" by simp
        from Cons.prems(4) H r0 same have e: "e - 1 = int (length (holding ?us l ws)) - 0"
          by simp
        from Cons.IH [OF dist range' r' e, of "add_active ll l (- 1)"] same False r0 H
          \<open>labors (us ! unit_ix w) l\<close> w
        show ?thesis by (auto simp: labors_set_labor)
      qed
    qed
  qed
qed

lemma remove_labor_units_length:
  "length (snd (snd (remove_labor l ws r e ll us))) = length us"
  by simp

lemma remove_labor_rest:
  assumes "j \<notin> unit_ix ` set ws"
  shows "snd (snd (remove_labor l ws r e ll us)) ! j = us ! j"
  using assms
proof (induction ws arbitrary: r e ll us)
  case Nil
  then show ?case by simp
next
  case (Cons w ws)
  then have "j \<noteq> unit_ix w" and "j \<notin> unit_ix ` set ws" by auto
  with Cons.IH show ?case by (simp add: set_labor_def)
qed

lemma holding_subset: "w \<in> set (holding us l ws) \<Longrightarrow> w \<in> set ws \<and> labors (us ! unit_ix w) l"
  by (simp add: holding_def)

lemma distinct_holding:
  "distinct (map unit_ix ws) \<Longrightarrow> distinct (map unit_ix (holding us l ws))"
  by (simp add: holding_def distinct_map_filter)

lemma take_drop_disjoint:
  assumes "distinct (map f xs)" and "x \<in> set (take n xs)"
  shows "f x \<notin> f ` set (drop n xs)"
proof -
  from assms(1) have "distinct (map f (take n xs) @ map f (drop n xs))"
    by (simp only: map_append [symmetric] append_take_drop_id)
  then have "set (map f (take n xs)) \<inter> set (map f (drop n xs)) = {}"
    by (simp only: distinct_append)
  with assms(2) show ?thesis by auto
qed

lemma surplus_walk_drops_lowest_ranked:
  assumes "distinct (map unit_ix ws)" and "\<forall>w\<in>set ws. unit_ix w < length us"
    and "active (ll ! l) = int (length (holding us l ws))"
    and "\<not> active (ll ! l) < minimum (ll ! l)"
    and "maximum (ll ! l) < active (ll ! l)"
    and "0 \<le> maximum (ll ! l)"
  shows "let ranked = sortUnitsBySkill us ws (skill (ll ! l));
             assigned = holding us l ranked;
             quota = nat (maximum (ll ! l));
             us' = snd (snd (check_labor l (ws, ll, us)))
         in sorted_wrt (\<lambda>a b. \<not> outranks (skill (ll ! l)) b a) ranked
          \<and> length (take quota assigned) = quota
          \<and> length (drop quota assigned) = nat (active (ll ! l) - maximum (ll ! l))
          \<and> (\<forall>w\<in>set (take quota assigned). labors (us' ! unit_ix w) l)
          \<and> (\<forall>w\<in>set (drop quota assigned). \<not> labors (us' ! unit_ix w) l)
          \<and> (\<forall>j l'. labors (us' ! j) l' =
                (if l' = l \<and> j \<in> unit_ix ` set (drop quota assigned) then False
                 else labors (us ! j) l'))"
proof -
  let ?ranked = "sortUnitsBySkill us ws (skill (ll ! l))"
  let ?assigned = "holding us l ?ranked"
  let ?quota = "nat (maximum (ll ! l))"
  let ?us' = "snd (snd (check_labor l (ws, ll, us)))"
  have run: "?us' = snd (snd (remove_labor l ?ranked (maximum (ll ! l))
                (active (ll ! l) - maximum (ll ! l)) ll us))"
    using assms(4,5) by simp
  have dist: "distinct (map unit_ix ?ranked)"
    using assms(1) by (simp only: distinct_sortUnitsBySkill)
  have range: "\<forall>w\<in>set ?ranked. unit_ix w < length us"
  proof
    fix w assume "w \<in> set ?ranked"
    then have "unit_ix w \<in> unit_ix ` set ?ranked" by (rule imageI)
    then have "unit_ix w \<in> unit_ix ` set ws" by (simp only: set_unit_ix_sortUnitsBySkill)
    with assms(2) show "unit_ix w < length us" by auto
  qed
  have len: "int (length ?assigned) = active (ll ! l)"
    using assms(3) by (simp only: length_holding_sortUnitsBySkill)
  then have excess: "active (ll ! l) - maximum (ll ! l) = int (length ?assigned) - maximum (ll ! l)"
    by simp
  have flags: "labors (?us' ! j) l' =
      (if l' = l \<and> j \<in> unit_ix ` set (drop ?quota ?assigned) then False else labors (us ! j) l')"
    for j l'
    unfolding run by (rule remove_labor_units [OF dist range assms(6) excess])
  have sorted: "sorted_wrt (\<lambda>a b. \<not> outranks (skill (ll ! l)) b a) ?ranked"
    by (rule sorted_sortUnitsBySkill)
  have kept_len: "length (take ?quota ?assigned) = ?quota"
    using len assms(5,6) by simp
  have dropped_len: "length (drop ?quota ?assigned) = nat (active (ll ! l) - maximum (ll ! l))"
    using len assms(5,6) by simp
  have kept: "labors (?us' ! unit_ix w) l" if "w \<in> set (take ?quota ?assigned)" for w
  proof -
    from that have "w \<in> set ?assigned" by (rule in_set_takeD)
    then have held: "labors (us ! unit_ix w) l" by (simp add: holding_def)
    have "unit_ix w \<notin> unit_ix ` set (drop ?quota ?assigned)"
      by (rule take_drop_disjoint [OF distinct_holding [OF dist] that])
    with held show ?thesis by (simp only: flags) simp
  qed
  have dropped: "\<not> labors (?us' ! unit_ix w) l" if "w \<in> set (drop ?quota ?assigned)" for w
  proof -
    from that have "unit_ix w \<in> unit_ix ` set (drop ?quota ?assigned)" by (rule imageI)
    then show ?thesis by (simp only: flags) simp
  qed
  show ?thesis
    unfolding Let_def using sorted kept_len dropped_len kept dropped flags by blast
qed

section \<open>The counters during the loop over the labors\<close>

text \<open>
  Both walks keep the counter of their labor in step with the flags, so \<open>pass_inv\<close>
  holds after the recount and whenever the loop reaches a labor.
\<close>

lemma add_tally_unit_ix [simp]: "unit_ix (add_tally ll k d w) = unit_ix w"
  by (simp add: add_tally_def)

lemma add_labor_ixs [simp]: "map unit_ix (fst (add_labor k ws n ll us)) = map unit_ix ws"
  by (induction ws arbitrary: n ll us) auto

lemma remove_labor_ixs [simp]: "map unit_ix (fst (remove_labor k ws r e ll us)) = map unit_ix ws"
  by (induction ws arbitrary: r e ll us) auto

lemma add_labor_rest:
  assumes "j \<notin> unit_ix ` set ws"
  shows "snd (snd (add_labor k ws n ll us)) ! j = us ! j"
  using assms
proof (induction ws arbitrary: n ll us)
  case Nil
  then show ?case by simp
next
  case (Cons w ws)
  then have "j \<noteq> unit_ix w" and "j \<notin> unit_ix ` set ws" by auto
  with Cons.IH show ?case by (simp add: set_labor_def)
qed

lemma holding_cong:
  "(\<And>w. w \<in> set ws \<Longrightarrow> labors (us' ! unit_ix w) l = labors (us ! unit_ix w) l) \<Longrightarrow>
   holding us' l ws = holding us l ws"
  unfolding holding_def by (rule filter_cong) simp_all

lemma add_labor_count:
  assumes "distinct (map unit_ix ws)" and "\<forall>w\<in>set ws. unit_ix w < length us" and "k < length ll"
  shows "active (fst (snd (add_labor k ws n ll us)) ! k) + int (length (holding us k ws))
           = active (ll ! k) + int (length (holding (snd (snd (add_labor k ws n ll us))) k ws))"
  using assms
proof (induction ws arbitrary: n ll us)
  case Nil
  then show ?case by (simp add: holding_def)
next
  case (Cons w ws)
  from Cons.prems have dist: "distinct (map unit_ix ws)" and fresh: "unit_ix w \<notin> unit_ix ` set ws"
    and range: "\<forall>w\<in>set ws. unit_ix w < length us" and w: "unit_ix w < length us"
    by auto
  show ?case
  proof (cases "labors (us ! unit_ix w) k")
    case True
    let ?us' = "snd (snd (add_labor k ws n ll us))"
    from add_labor_rest [OF fresh, of k n ll us] True have "labors (?us' ! unit_ix w) k" by simp
    with True Cons.IH [OF dist range Cons.prems(3), of n] show ?thesis
      by (simp add: holding_Cons)
  next
    case False
    let ?us1 = "set_labor us (unit_ix w) k True"
    let ?ll1 = "add_active ll k 1"
    have same: "holding ?us1 k ws = holding us k ws"
      by (rule holding_set_labor [OF fresh])
    have set1: "labors (?us1 ! unit_ix w) k" using w by (simp add: labors_set_labor)
    have act1: "active (?ll1 ! k) = active (ll ! k) + 1"
      using Cons.prems(3) by (simp add: add_active_nth)
    show ?thesis
    proof (cases "n - 1 = 0")
      case True
      with False same set1 act1 show ?thesis by (simp add: holding_Cons)
    next
      case stop: False
      let ?us' = "snd (snd (add_labor k ws (n - 1) ?ll1 ?us1))"
      have range1: "\<forall>w\<in>set ws. unit_ix w < length ?us1" using range by simp
      have len1: "k < length ?ll1" using Cons.prems(3) by simp
      from add_labor_rest [OF fresh, of k "n - 1" ?ll1 ?us1] set1
      have "labors (?us' ! unit_ix w) k" by simp
      with False stop same act1 Cons.IH [OF dist range1 len1, of "n - 1"] show ?thesis
        by (simp add: holding_Cons)
    qed
  qed
qed

lemma remove_labor_count:
  assumes "distinct (map unit_ix ws)" and "\<forall>w\<in>set ws. unit_ix w < length us" and "k < length ll"
  shows "active (fst (snd (remove_labor k ws r e ll us)) ! k) + int (length (holding us k ws))
           = active (ll ! k) + int (length (holding (snd (snd (remove_labor k ws r e ll us))) k ws))"
  using assms
proof (induction ws arbitrary: r e ll us)
  case Nil
  then show ?case by (simp add: holding_def)
next
  case (Cons w ws)
  from Cons.prems have dist: "distinct (map unit_ix ws)" and fresh: "unit_ix w \<notin> unit_ix ` set ws"
    and range: "\<forall>w\<in>set ws. unit_ix w < length us" and w: "unit_ix w < length us"
    by auto
  show ?case
  proof (cases "labors (us ! unit_ix w) k")
    case False
    let ?us' = "snd (snd (remove_labor k ws r e ll us))"
    from remove_labor_rest [OF fresh, of k r e ll us] False have "\<not> labors (?us' ! unit_ix w) k"
      by simp
    with False Cons.IH [OF dist range Cons.prems(3), of r e] show ?thesis
      by (simp add: holding_Cons)
  next
    case True
    show ?thesis
    proof (cases "r \<noteq> 0")
      case keep: True
      let ?us' = "snd (snd (remove_labor k ws (r - 1) e ll us))"
      from remove_labor_rest [OF fresh, of k "r - 1" e ll us] True
      have "labors (?us' ! unit_ix w) k" by simp
      with True keep Cons.IH [OF dist range Cons.prems(3), of "r - 1" e] show ?thesis
        by (simp add: holding_Cons)
    next
      case False
      let ?us1 = "set_labor us (unit_ix w) k False"
      let ?ll1 = "add_active ll k (- 1)"
      have same: "holding ?us1 k ws = holding us k ws"
        by (rule holding_set_labor [OF fresh])
      have clr1: "\<not> labors (?us1 ! unit_ix w) k" using w by (simp add: labors_set_labor)
      have act1: "active (?ll1 ! k) = active (ll ! k) - 1"
        using Cons.prems(3) by (simp add: add_active_nth)
      show ?thesis
      proof (cases "e - 1 = 0")
        case stop: True
        with True False same clr1 act1 show ?thesis by (simp add: holding_Cons)
      next
        case go: False
        let ?us' = "snd (snd (remove_labor k ws r (e - 1) ?ll1 ?us1))"
        have range1: "\<forall>w\<in>set ws. unit_ix w < length ?us1" using range by simp
        have len1: "k < length ?ll1" using Cons.prems(3) by simp
        from remove_labor_rest [OF fresh, of k r "e - 1" ?ll1 ?us1] clr1
        have "\<not> labors (?us' ! unit_ix w) k" by simp
        with True False go same act1 Cons.IH [OF dist range1 len1, of r "e - 1"] show ?thesis
          by (simp add: holding_Cons)
      qed
    qed
  qed
qed

lemma add_labor_can_work [simp]:
  "can_work (snd (snd (add_labor k ws n ll us)) ! j) = can_work (us ! j)"
  by (induction ws arbitrary: n ll us) auto

lemma remove_labor_can_work [simp]:
  "can_work (snd (snd (remove_labor k ws r e ll us)) ! j) = can_work (us ! j)"
  by (induction ws arbitrary: r e ll us) auto

lemma length_filter_nth:
  "length (filter (\<lambda>j. Q (xs ! j)) [0..<length xs]) = length (filter Q xs)"
proof -
  have "filter Q xs = filter Q (map ((!) xs) [0..<length xs])"
    by (simp only: map_nth)
  also have "\<dots> = map ((!) xs) (filter (Q \<circ> (!) xs) [0..<length xs])"
    by (simp only: filter_map)
  finally have "length (filter Q xs) = length (filter (Q \<circ> (!) xs) [0..<length xs])"
    by simp
  then show ?thesis by (simp add: comp_def)
qed

lemma holders_index:
  "holders us l = int (length (filter (\<lambda>j. can_work (us ! j) \<and> labors (us ! j) l) [0..<length us]))"
  unfolding holders_def
  using length_filter_nth [of "\<lambda>u. can_work u \<and> labors u l" us] by simp

lemma holders_cong:
  assumes "length us' = length us"
    and "\<And>j. can_work (us' ! j) = can_work (us ! j)"
    and "\<And>j. labors (us' ! j) l = labors (us ! j) l"
  shows "holders us' l = holders us l"
  unfolding holders_index using assms by simp

lemma eligible_cong:
  assumes "length us' = length us" and "\<And>j. can_work (us' ! j) = can_work (us ! j)"
  shows "eligible us' = eligible us"
  unfolding eligible_def using assms by simp

lemma eligible_facts:
  "distinct (eligible us)" "j \<in> set (eligible us) \<Longrightarrow> j < length us \<and> can_work (us ! j)"
  by (simp_all add: eligible_def)

lemma workers_distinct:
  "mset (map unit_ix ws) = mset (eligible us) \<Longrightarrow> distinct (map unit_ix ws)"
  using mset_eq_imp_distinct_iff [of "map unit_ix ws" "eligible us"] eligible_facts(1) by blast

lemma workers_range:
  assumes "mset (map unit_ix ws) = mset (eligible us)"
  shows "\<forall>w\<in>set ws. unit_ix w < length us \<and> can_work (us ! unit_ix w)"
proof
  fix w assume "w \<in> set ws"
  then have "unit_ix w \<in> set (map unit_ix ws)" by simp
  with mset_eq_setD [OF assms] have "unit_ix w \<in> set (eligible us)" by simp
  then show "unit_ix w < length us \<and> can_work (us ! unit_ix w)" by (rule eligible_facts(2))
qed

lemma holding_holders:
  assumes "mset (map unit_ix ws) = mset (eligible us)"
  shows "int (length (holding us l ws)) = holders us l"
proof -
  have "length (holding us l ws)
          = size (filter_mset (\<lambda>i. labors (us ! i) l) (mset (eligible us)))"
    by (simp only: length_holding_ixs assms)
  also have "\<dots> = length (filter (\<lambda>i. labors (us ! i) l) (eligible us))"
    by (simp only: mset_filter [symmetric] size_mset)
  also have "\<dots> = length (filter (\<lambda>j. can_work (us ! j) \<and> labors (us ! j) l) [0..<length us])"
    by (simp add: eligible_def conj_commute)
  finally show ?thesis by (simp only: holders_index)
qed

lemma eligible_Cons:
  "eligible (d # ds) = (if can_work d then [0] else []) @ map Suc (eligible ds)"
proof -
  have "[0..<Suc (length ds)] = 0 # map Suc [0..<length ds]"
    by (simp only: map_Suc_upt upt_conv_Cons [OF zero_less_Suc])
  then have "[0..<length (d # ds)] = 0 # map Suc [0..<length ds]"
    by (simp only: list.size add_Suc_right add_0_right One_nat_def)
  then show ?thesis
    by (simp add: eligible_def filter_map comp_def del: upt_Suc)
qed

lemma count_units_ixs:
  "map unit_ix (snd (count_units ds i r)) = map unit_ix (snd r) @ map ((+) i) (eligible ds)"
proof (induction ds arbitrary: i r)
  case Nil
  then show ?case by (cases r) (simp add: eligible_def)
next
  case (Cons d ds)
  obtain ll ws where r: "r = (ll, ws)" by (cases r)
  show ?case
  proof (cases "can_work d")
    case False
    with Cons.IH [of "Suc i" "(ll, ws)"] r show ?thesis
      by (simp add: eligible_Cons comp_def)
  next
    case True
    let ?r = "push_back ws (fold (count_labor d) [0..<length ll] (ll, new_worker i))"
    have "map unit_ix (snd ?r) = map unit_ix ws @ [i]"
      by (simp add: new_worker_def)
    with Cons.IH [of "Suc i" ?r] True r show ?thesis
      by (simp add: eligible_Cons comp_def)
  qed
qed

lemma recount_ixs: "map unit_ix (snd (recount s)) = eligible (units s)"
  by (simp add: recount_def count_units_ixs map_idI)

lemma pass_inv_recount: "pass_inv (snd (recount s)) (fst (recount s)) (units s)"
  by (simp add: pass_inv_def recount_ixs recount_active)

lemma pass_inv_check_labor:
  assumes inv: "pass_inv ws ll us" and k: "k < length ll"
    and step: "check_labor k (ws, ll, us) = (ws', ll', us')"
  shows "pass_inv ws' ll' us'"
proof -
  from inv have ixs: "mset (map unit_ix ws) = mset (eligible us)"
    and act: "\<And>l. l < length ll \<Longrightarrow> active (ll ! l) = holders us l"
    by (simp_all add: pass_inv_def)
  let ?ranked = "sortUnitsBySkill us ws (skill (ll ! k))"
  have rixs: "mset (map unit_ix ?ranked) = mset (eligible us)"
    using ixs by (simp only: mset_unit_ix_sortUnitsBySkill)
  have rdist: "distinct (map unit_ix ?ranked)" by (rule workers_distinct [OF rixs])
  have rrange: "\<forall>w\<in>set ?ranked. unit_ix w < length us"
    using workers_range [OF rixs] by blast
  have rcount: "int (length (holding us k ?ranked)) = active (ll ! k)"
    using holding_holders [OF rixs, of k] act [OF k] by simp
  consider (deficit) "active (ll ! k) < minimum (ll ! k)"
    | (surplus) "\<not> active (ll ! k) < minimum (ll ! k)" "maximum (ll ! k) < active (ll ! k)"
    | (within) "\<not> active (ll ! k) < minimum (ll ! k)" "\<not> maximum (ll ! k) < active (ll ! k)"
    by blast
  then show ?thesis
  proof cases
    case deficit
    let ?n = "minimum (ll ! k) - active (ll ! k)"
    let ?res = "add_labor k ?ranked ?n ll us"
    from step deficit have res: "?res = (ws', ll', us')" by simp
    then have ws': "ws' = fst ?res" and ll': "ll' = fst (snd ?res)" and us': "us' = snd (snd ?res)"
      by simp_all
    have el: "eligible us' = eligible us"
      unfolding us' by (rule eligible_cong) simp_all
    have ixs': "mset (map unit_ix ws') = mset (eligible us')"
      unfolding ws' el using rixs by simp
    have rixs': "mset (map unit_ix ?ranked) = mset (eligible us')"
      unfolding el by (rule rixs)
    have "active (ll' ! l) = holders us' l" if l: "l < length ll'" for l
    proof (cases "l = k")
      case True
      from add_labor_count [OF rdist rrange k, of ?n] rcount
      have "active (ll' ! k) = int (length (holding us' k ?ranked))"
        unfolding ll' us' by simp
      with holding_holders [OF rixs', of k] True show ?thesis by simp
    next
      case False
      from l have "l < length ll" unfolding ll' by simp
      from act [OF this] False have "active (ll' ! l) = holders us l"
        unfolding ll' by (simp add: add_labor_table_other)
      moreover have "holders us' l = holders us l"
        unfolding us' using False by (intro holders_cong) (simp_all add: add_labor_flags_other)
      ultimately show ?thesis by simp
    qed
    with ixs' show ?thesis by (simp add: pass_inv_def)
  next
    case surplus
    let ?r = "maximum (ll ! k)"
    let ?e = "active (ll ! k) - maximum (ll ! k)"
    let ?res = "remove_labor k ?ranked ?r ?e ll us"
    from step surplus have res: "?res = (ws', ll', us')" by simp
    then have ws': "ws' = fst ?res" and ll': "ll' = fst (snd ?res)" and us': "us' = snd (snd ?res)"
      by simp_all
    have el: "eligible us' = eligible us"
      unfolding us' by (rule eligible_cong) simp_all
    have ixs': "mset (map unit_ix ws') = mset (eligible us')"
      unfolding ws' el using rixs by simp
    have rixs': "mset (map unit_ix ?ranked) = mset (eligible us')"
      unfolding el by (rule rixs)
    have "active (ll' ! l) = holders us' l" if l: "l < length ll'" for l
    proof (cases "l = k")
      case True
      from remove_labor_count [OF rdist rrange k, of ?r ?e] rcount
      have "active (ll' ! k) = int (length (holding us' k ?ranked))"
        unfolding ll' us' by simp
      with holding_holders [OF rixs', of k] True show ?thesis by simp
    next
      case False
      from l have "l < length ll" unfolding ll' by simp
      from act [OF this] False have "active (ll' ! l) = holders us l"
        unfolding ll' by (simp add: remove_labor_table_other)
      moreover have "holders us' l = holders us l"
        unfolding us' using False by (intro holders_cong) (simp_all add: remove_labor_flags_other)
      ultimately show ?thesis by simp
    qed
    with ixs' show ?thesis by (simp add: pass_inv_def)
  next
    case within
    with step inv show ?thesis by simp
  qed
qed

lemma pass_inv_labors:
  assumes "pass_inv ws ll us" and "\<forall>k\<in>set ks. k < length ll"
    and "fold check_labor ks (ws, ll, us) = (ws', ll', us')"
  shows "pass_inv ws' ll' us' \<and> length ll' = length ll"
  using assms
proof (induction ks arbitrary: ws ll us)
  case Nil
  then show ?case by simp
next
  case (Cons k ks)
  obtain ws1 ll1 us1 where step: "check_labor k (ws, ll, us) = (ws1, ll1, us1)"
    by (cases "check_labor k (ws, ll, us)")
  from Cons.prems(2) have k: "k < length ll" by simp
  have inv1: "pass_inv ws1 ll1 us1" by (rule pass_inv_check_labor [OF Cons.prems(1) k step])
  have len1: "length ll1 = length ll"
    using check_labor_table_length [of k ws ll us] step by simp
  with Cons.prems(2) have ks: "\<forall>k\<in>set ks. k < length ll1" by simp
  from Cons.prems(3) step have "fold check_labor ks (ws1, ll1, us1) = (ws', ll', us')" by simp
  from Cons.IH [OF inv1 ks this] len1 show ?case by simp
qed

lemma pass_inv_at_labor:
  assumes "l \<le> length (lazy_labors s)" and "at_labor s l = (ws, ll, us)"
  shows "pass_inv ws ll us \<and> length ll = length (lazy_labors s)"
proof -
  from assms(1) have "\<forall>k\<in>set [0..<l]. k < length (fst (recount s))" by simp
  from pass_inv_labors [OF pass_inv_recount this] assms(2) show ?thesis
    by (simp add: at_labor_def)
qed

lemma balance_labors_at_labor: "balance_labors s = at_labor s (length (lazy_labors s))"
  using recount_length [of s] by (cases "recount s") (simp add: balance_labors_def at_labor_def)

text \<open>
  Claim C7: when the loop reaches a labor whose active count exceeds its maximum (and
  is not below its minimum, so that the surplus branch runs; the maximum is not
  negative), the workers are sorted, best ranked first, and the walk clears the flag of
  exactly the holders that come after the first \<open>maximum\<close> holders of the sorted
  vector. The first \<open>maximum\<close> holders keep the labor, \<open>active - maximum\<close> holders lose
  it, and for every other unit and every other labor the flags are as before: a worker
  who does not hold the labor is passed over and uses up none of the quota.
\<close>

theorem surplus_correction_keeps_best_ranked:
  assumes "l < length (lazy_labors s)" and "at_labor s l = (ws, ll, us)"
    and "\<not> active (ll ! l) < minimum (ll ! l)"
    and "maximum (ll ! l) < active (ll ! l)"
    and "0 \<le> maximum (ll ! l)"
  shows "let ranked = sortUnitsBySkill us ws (skill (ll ! l));
             assigned = holding us l ranked;
             quota = nat (maximum (ll ! l));
             us' = snd (snd (check_labor l (ws, ll, us)))
         in sorted_wrt (\<lambda>a b. \<not> outranks (skill (ll ! l)) b a) ranked
          \<and> length (take quota assigned) = quota
          \<and> length (drop quota assigned) = nat (active (ll ! l) - maximum (ll ! l))
          \<and> (\<forall>w\<in>set (take quota assigned). labors (us' ! unit_ix w) l)
          \<and> (\<forall>w\<in>set (drop quota assigned). \<not> labors (us' ! unit_ix w) l)
          \<and> (\<forall>j l'. labors (us' ! j) l' =
                (if l' = l \<and> j \<in> unit_ix ` set (drop quota assigned) then False
                 else labors (us ! j) l'))"
proof -
  from assms(1) have "l \<le> length (lazy_labors s)" by simp
  from pass_inv_at_labor [OF this assms(2)] have inv: "pass_inv ws ll us"
    and len: "length ll = length (lazy_labors s)" by simp_all
  from inv have ixs: "mset (map unit_ix ws) = mset (eligible us)" by (simp add: pass_inv_def)
  have dist: "distinct (map unit_ix ws)" by (rule workers_distinct [OF ixs])
  have range: "\<forall>w\<in>set ws. unit_ix w < length us" using workers_range [OF ixs] by blast
  from inv assms(1) len have "active (ll ! l) = holders us l" by (simp add: pass_inv_def)
  with holding_holders [OF ixs, of l] have count: "active (ll ! l) = int (length (holding us l ws))"
    by simp
  show ?thesis
    by (rule surplus_walk_drops_lowest_ranked [OF dist range count assms(3,4,5)])
qed

theorem surplus_correction_keeps_best_ranked_witness:
  "0 < length (lazy_labors overstaffed)
   \<and> at_labor overstaffed 0 = (snd (recount overstaffed), fst (recount overstaffed), units overstaffed)
   \<and> \<not> active (fst (recount overstaffed) ! 0) < minimum (fst (recount overstaffed) ! 0)
   \<and> maximum (fst (recount overstaffed) ! 0) < active (fst (recount overstaffed) ! 0)
   \<and> 0 \<le> maximum (fst (recount overstaffed) ! 0)
   \<and> (\<forall>j. labors (snd (snd (check_labor 0 (at_labor overstaffed 0))) ! j) 0
           = (if j \<in> {4, 0} then False else labors (units overstaffed ! j) 0))"
proof -
  let ?ws = "snd (recount overstaffed)" and ?ll = "fst (recount overstaffed)"
  let ?us = "units overstaffed"
  have h1: "0 < length (lazy_labors overstaffed)" by code_simp
  have h2: "at_labor overstaffed 0 = (?ws, ?ll, ?us)" by (simp add: at_labor_def)
  have h3: "\<not> active (?ll ! 0) < minimum (?ll ! 0)" by code_simp
  have h4: "maximum (?ll ! 0) < active (?ll ! 0)" by code_simp
  have h5: "0 \<le> maximum (?ll ! 0)" by code_simp
  have dropped: "map unit_ix (drop (nat (maximum (?ll ! 0)))
      (holding ?us 0 (sortUnitsBySkill ?us ?ws (skill (?ll ! 0))))) = [4, 0]"
    by code_simp
  have "unit_ix ` set (drop (nat (maximum (?ll ! 0)))
      (holding ?us 0 (sortUnitsBySkill ?us ?ws (skill (?ll ! 0))))) = set [4, 0]"
    by (simp only: dropped [symmetric] set_map)
  then have set: "unit_ix ` set (drop (nat (maximum (?ll ! 0)))
      (holding ?us 0 (sortUnitsBySkill ?us ?ws (skill (?ll ! 0))))) = {4, 0}"
    by simp
  from surplus_correction_keeps_best_ranked [OF h1 h2 h3 h4 h5]
  have "\<forall>j. labors (snd (snd (check_labor 0 (?ws, ?ll, ?us))) ! j) 0
           = (if j \<in> {4, 0} then False else labors (?us ! j) 0)"
    unfolding Let_def set by simp
  with h1 h2 h3 h4 h5 show ?thesis by (simp only: h2) simp
qed

text \<open>The same world after the whole pass: the dwarves of rating 2 and 1 lose the labor.\<close>

lemma overstaffed_pass:
  "map (\<lambda>u. labors u 0) (units overstaffed) = [True, True, True, True, True, False]
   \<and> map (\<lambda>u. labors u 0) (units (check_dwarves overstaffed))
       = [False, True, True, True, False, False]"
  by code_simp

section \<open>The pass where it departs from its description\<close>

subsection \<open>The safety net for a worker without any labor\<close>

text \<open>
  A sampling loop leaves in \<open>selected\<close> the value it started with or one of the labors
  that passed its tests; and when \<open>found\<close> is not zero, \<open>selected\<close> is a labor, so
  the assignment that follows the loop has an index to write to.
\<close>

lemma sample_labors_selected:
  assumes "fold (sample_labor b ll) ks (sel, found, g) = (sel', found', g')"
  shows "sel' = sel \<or> (\<exists>k\<in>set ks. sel' = UnitLabor k
            \<and> (skill (ll ! k) \<noteq> job_skill_NONE) = b \<and> active (ll ! k) < maximum (ll ! k))"
  using assms
proof (induction ks arbitrary: sel found g)
  case Nil
  then show ?case by simp
next
  case (Cons k ks)
  obtain sel1 found1 g1 where step: "sample_labor b ll k (sel, found, g) = (sel1, found1, g1)"
    by (cases "sample_labor b ll k (sel, found, g)")
  have first: "sel1 = sel \<or> (sel1 = UnitLabor k
            \<and> (skill (ll ! k) \<noteq> job_skill_NONE) = b \<and> active (ll ! k) < maximum (ll ! k))"
    using step by (cases "rand g") (auto split: if_splits)
  from Cons.prems step have "fold (sample_labor b ll) ks (sel1, found1, g1) = (sel', found', g')"
    by simp
  from Cons.IH [OF this] first show ?case by auto
qed

lemma sample_labors_found:
  assumes "fold (sample_labor b ll) ks (sel, found, g) = (sel', found', g')"
    and "0 \<le> found" and "found = 0 \<or> sel \<noteq> unit_labor_NONE"
  shows "0 \<le> found' \<and> (found' = 0 \<or> sel' \<noteq> unit_labor_NONE)"
  using assms
proof (induction ks arbitrary: sel found g)
  case Nil
  then show ?case by simp
next
  case (Cons k ks)
  obtain sel1 found1 g1 where step: "sample_labor b ll k (sel, found, g) = (sel1, found1, g1)"
    by (cases "sample_labor b ll k (sel, found, g)")
  have first: "0 \<le> found1 \<and> (found1 = 0 \<or> sel1 \<noteq> unit_labor_NONE)"
    using step Cons.prems(2,3) by (cases "rand g") (auto split: if_splits)
  from Cons.prems step have "fold (sample_labor b ll) ks (sel1, found1, g1) = (sel', found', g')"
    by simp
  from Cons.IH [OF this] first show ?case by blast
qed

text \<open>
  For a worker without skilled labor the safety net leaves the flags of every unskilled
  labor as they are.
\<close>

lemma cover_worker_unskilled_untouched:
  assumes "skilled w = 0" and "skill (ll ! l) = job_skill_NONE"
  shows "labors (fst (cover_worker ll w (us, g)) ! j) l = labors (us ! j) l"
proof -
  obtain sel found g' where
    pick: "fold (sample_labor True ll) [0..<length ll] (unit_labor_NONE, 0, g) = (sel, found, g')"
    by (cases "fold (sample_labor True ll) [0..<length ll] (unit_labor_NONE, 0, g)")
  from sample_labors_selected [OF pick] assms(2)
  have "sel = unit_labor_NONE \<or> (\<exists>k. sel = UnitLabor k \<and> k \<noteq> l)" by auto
  then have "labors (enable_selected us (unit_ix w) sel ! j) l = labors (us ! j) l"
    by (auto simp: enable_selected_def labors_set_labor)
  with assms(1) pick show ?thesis by (simp add: Let_def)
qed

text \<open>
  Claim C1 on the world \<open>crowd\<close>. After the loop over the labors the worker of unit 22
  has no skilled and no unskilled labor, and the unskilled labor 0 is held by 20
  workers, below its maximum of 40. The pass enables the skilled labor 1 for this unit
  and leaves labor 0 disabled.
\<close>

theorem crowd_unskilled_not_enabled:
  "(case balance_labors crowd of (workers, ll, us) \<Rightarrow>
      map (\<lambda>w. (skilled w, unskilled w)) (filter (\<lambda>w. unit_ix w = 22) workers) = [(0, 0)]
      \<and> skill (ll ! 0) = job_skill_NONE \<and> active (ll ! 0) = 20 \<and> maximum (ll ! 0) = 40)
   \<and> can_work (units crowd ! 22)
   \<and> labors (units (check_dwarves crowd) ! 22) 1
   \<and> \<not> labors (units (check_dwarves crowd) ! 22) 0"
  by code_simp

subsection \<open>The counters and the maximum after the safety net\<close>

text \<open>
  Up to the end of the loop over the labors the counters are right (\<open>pass_inv_at_labor\<close>)
  and a labor whose minimum is not above its maximum, and whose maximum is not negative,
  is held by at most its maximum of eligible units. The safety net then sets flags and
  leaves the counters as they are.
\<close>

lemma static_fields:
  assumes "a\<lparr>active := 0\<rparr> = b\<lparr>active := 0\<rparr>"
  shows "skill a = skill b" "minimum a = minimum b" "maximum a = maximum b" "uniformed a = uniformed b"
proof -
  have "skill (a\<lparr>active := 0\<rparr>) = skill (b\<lparr>active := 0\<rparr>)" 
       "minimum (a\<lparr>active := 0\<rparr>) = minimum (b\<lparr>active := 0\<rparr>)"
       "maximum (a\<lparr>active := 0\<rparr>) = maximum (b\<lparr>active := 0\<rparr>)"
       "uniformed (a\<lparr>active := 0\<rparr>) = uniformed (b\<lparr>active := 0\<rparr>)"
    by (simp_all only: assms)
  then show "skill a = skill b" "minimum a = minimum b" "maximum a = maximum b"
    "uniformed a = uniformed b"
    by simp_all
qed

lemma check_labor_static:
  "(fst (snd (check_labor k x)) ! l)\<lparr>active := 0\<rparr> = (fst (snd x) ! l)\<lparr>active := 0\<rparr>"
  by (cases x) simp

lemma check_labors_static:
  "(fst (snd (fold check_labor ks x)) ! l)\<lparr>active := 0\<rparr> = (fst (snd x) ! l)\<lparr>active := 0\<rparr>"
  by (induction ks arbitrary: x) (simp_all add: check_labor_static)

lemma check_labors_other:
  "l \<notin> set ks \<Longrightarrow> fst (snd (fold check_labor ks x)) ! l = fst (snd x) ! l"
proof (induction ks arbitrary: x)
  case Nil
  then show ?case by simp
next
  case (Cons k ks)
  obtain ws ll us where x: "x = (ws, ll, us)" by (cases x)
  from Cons.prems have "l \<noteq> k" and "l \<notin> set ks" by auto
  from Cons.IH [OF this(2), of "check_labor k x"] check_labor_table_other [OF this(1), of ws ll us] x
  show ?case by simp
qed

lemma add_labor_bound:
  "1 \<le> n \<Longrightarrow> k < length ll \<Longrightarrow>
   active (fst (snd (add_labor k ws n ll us)) ! k) \<le> active (ll ! k) + n"
proof (induction ws arbitrary: n ll us)
  case Nil
  then show ?case by simp
next
  case (Cons w ws)
  show ?case
  proof (cases "labors (us ! unit_ix w) k")
    case True
    with Cons.IH [OF Cons.prems] show ?thesis by simp
  next
    case False
    show ?thesis
    proof (cases "n - 1 = 0")
      case True
      with False Cons.prems show ?thesis by (simp add: add_active_nth)
    next
      case more: False
      with Cons.prems have n: "1 \<le> n - 1" by simp
      have len: "k < length (add_active ll k 1)" using Cons.prems by simp
      from Cons.IH [OF n len, of "set_labor us (unit_ix w) k True"] False more Cons.prems
      show ?thesis by (simp add: add_active_nth)
    qed
  qed
qed

lemma remove_labor_active:
  assumes "distinct (map unit_ix ws)" and "\<forall>w\<in>set ws. unit_ix w < length us"
    and "0 \<le> r" and "e = int (length (holding us k ws)) - r" and "k < length ll"
  shows "active (fst (snd (remove_labor k ws r e ll us)) ! k)
           = active (ll ! k) - int (length (drop (nat r) (holding us k ws)))"
  using assms
proof (induction ws arbitrary: r e ll us)
  case Nil
  then show ?case by (simp add: holding_def)
next
  case (Cons w ws)
  from Cons.prems have dist: "distinct (map unit_ix ws)" and fresh: "unit_ix w \<notin> unit_ix ` set ws"
    and range: "\<forall>w\<in>set ws. unit_ix w < length us" and w: "unit_ix w < length us"
    by auto
  show ?case
  proof (cases "labors (us ! unit_ix w) k")
    case False
    with Cons.prems have e: "e = int (length (holding us k ws)) - r"
      by (simp add: holding_Cons)
    from Cons.IH [OF dist range Cons.prems(3) e Cons.prems(5)] False
    show ?thesis by (simp add: holding_Cons)
  next
    case True
    then have H: "holding us k (w # ws) = w # holding us k ws"
      by (simp add: holding_Cons)
    show ?thesis
    proof (cases "r = 0")
      case False
      with Cons.prems(3) have r1: "0 \<le> r - 1" and pos: "0 < r" by simp_all
      from Cons.prems(4) H have e: "e = int (length (holding us k ws)) - (r - 1)" by simp
      from pos have d: "drop (nat r) (w # holding us k ws) = drop (nat (r - 1)) (holding us k ws)"
        by (simp add: drop_Cons' nat_diff_distrib)
      from Cons.IH [OF dist range r1 e Cons.prems(5)] True False H d
      show ?thesis by simp
    next
      case r0: True
      let ?us = "set_labor us (unit_ix w) k False"
      let ?ll = "add_active ll k (- 1)"
      have same: "holding ?us k ws = holding us k ws"
        by (rule holding_set_labor [OF fresh])
      have act: "active (?ll ! k) = active (ll ! k) - 1"
        using Cons.prems(5) by (simp add: add_active_nth)
      show ?thesis
      proof (cases "e - 1 = 0")
        case True
        with Cons.prems(4) H r0 have "holding us k ws = []" by simp
        with True r0 H \<open>labors (us ! unit_ix w) k\<close> act show ?thesis by simp
      next
        case False
        have range': "\<forall>w\<in>set ws. unit_ix w < length ?us" using range by simp
        have r': "(0::int) \<le> 0" by simp
        have len: "k < length ?ll" using Cons.prems(5) by simp
        from Cons.prems(4) H r0 same have e: "e - 1 = int (length (holding ?us k ws)) - 0"
          by simp
        from Cons.IH [OF dist range' r' e len] same False r0 H
          \<open>labors (us ! unit_ix w) k\<close> act
        show ?thesis by simp
      qed
    qed
  qed
qed

lemma check_labor_bound:
  assumes inv: "pass_inv ws ll us" and k: "k < length ll"
    and max: "0 \<le> maximum (ll ! k)" and bounds: "minimum (ll ! k) \<le> maximum (ll ! k)"
  shows "active (fst (snd (check_labor k (ws, ll, us))) ! k) \<le> maximum (ll ! k)"
proof -
  from inv have ixs: "mset (map unit_ix ws) = mset (eligible us)"
    and act: "active (ll ! k) = holders us k"
    using k by (simp_all add: pass_inv_def)
  let ?ranked = "sortUnitsBySkill us ws (skill (ll ! k))"
  have rixs: "mset (map unit_ix ?ranked) = mset (eligible us)"
    using ixs by (simp only: mset_unit_ix_sortUnitsBySkill)
  have rdist: "distinct (map unit_ix ?ranked)" by (rule workers_distinct [OF rixs])
  have rrange: "\<forall>w\<in>set ?ranked. unit_ix w < length us"
    using workers_range [OF rixs] by blast
  have rcount: "int (length (holding us k ?ranked)) = active (ll ! k)"
    using holding_holders [OF rixs, of k] act by simp
  consider (deficit) "active (ll ! k) < minimum (ll ! k)"
    | (surplus) "\<not> active (ll ! k) < minimum (ll ! k)" "maximum (ll ! k) < active (ll ! k)"
    | (within) "\<not> active (ll ! k) < minimum (ll ! k)" "\<not> maximum (ll ! k) < active (ll ! k)"
    by blast
  then show ?thesis
  proof cases
    case deficit
    then have n: "1 \<le> minimum (ll ! k) - active (ll ! k)" by simp
    from add_labor_bound [OF n k, of ?ranked us] deficit bounds show ?thesis by simp
  next
    case surplus
    have e: "active (ll ! k) - maximum (ll ! k)
               = int (length (holding us k ?ranked)) - maximum (ll ! k)"
      using rcount by simp
    from remove_labor_active [OF rdist rrange max e k] surplus rcount max
    show ?thesis by simp
  next
    case within
    then show ?thesis by simp
  qed
qed

lemma maximum_kept_by_loop:
  assumes l: "l < length (lazy_labors s)"
    and max: "0 \<le> maximum (lazy_labors s ! l)"
    and bounds: "minimum (lazy_labors s ! l) \<le> maximum (lazy_labors s ! l)"
  shows "holders (snd (snd (balance_labors s))) l \<le> maximum (lazy_labors s ! l)"
proof -
  let ?n = "length (lazy_labors s)"
  let ?x0 = "(snd (recount s), fst (recount s), units s)"
  obtain ws1 ll1 us1 where x1: "at_labor s l = (ws1, ll1, us1)" by (cases "at_labor s l")
  obtain ws2 ll2 us2 where x2: "check_labor l (ws1, ll1, us1) = (ws2, ll2, us2)"
    by (cases "check_labor l (ws1, ll1, us1)")
  obtain ws3 ll3 us3 where x3: "fold check_labor [Suc l..<?n] (ws2, ll2, us2) = (ws3, ll3, us3)"
    by (cases "fold check_labor [Suc l..<?n] (ws2, ll2, us2)")
  from l have split: "[0..<?n] = [0..<l] @ l # [Suc l..<?n]"
    by (metis le_add1 less_imp_add_positive upt_add_eq_append upt_conv_Cons zero_le)
  have whole: "balance_labors s = (ws3, ll3, us3)"
    using x1 x2 x3 by (simp add: balance_labors_at_labor at_labor_def split)
  from pass_inv_at_labor [OF _ x1] l have inv1: "pass_inv ws1 ll1 us1" and len1: "length ll1 = ?n"
    by simp_all
  from l len1 have l1: "l < length ll1" by simp
  have "(ll1 ! l)\<lparr>active := 0\<rparr> = (fst (recount s) ! l)\<lparr>active := 0\<rparr>"
    using check_labors_static [of "[0..<l]" ?x0 l] x1 by (simp add: at_labor_def)
  also have "\<dots> = (lazy_labors s ! l)\<lparr>active := 0\<rparr>" by (rule recount_static [OF l])
  finally have st: "minimum (ll1 ! l) = minimum (lazy_labors s ! l)"
    "maximum (ll1 ! l) = maximum (lazy_labors s ! l)"
    by (rule static_fields)+
  from check_labor_bound [OF inv1 l1] max bounds st x2
  have a2: "active (ll2 ! l) \<le> maximum (lazy_labors s ! l)" by simp
  have inv2: "pass_inv ws2 ll2 us2" by (rule pass_inv_check_labor [OF inv1 l1 x2])
  have len2: "length ll2 = ?n" using check_labor_table_length [of l ws1 ll1 us1] x2 len1 by simp
  then have later: "\<forall>k\<in>set [Suc l..<?n]. k < length ll2" by simp
  from pass_inv_labors [OF inv2 later x3] have inv3: "pass_inv ws3 ll3 us3"
    and len3: "length ll3 = length ll2" by simp_all
  have "ll3 ! l = ll2 ! l"
    using check_labors_other [of l "[Suc l..<?n]" "(ws2, ll2, us2)"] x3 by simp
  with a2 have "active (ll3 ! l) \<le> maximum (lazy_labors s ! l)" by simp
  moreover from inv3 l len2 len3 have "active (ll3 ! l) = holders us3 l"
    by (simp add: pass_inv_def)
  ultimately show ?thesis using whole by simp
qed

lemma lazy_labors_store: "lazy_labors (store s ll x) = ll"
  by (cases x; cases "snd x") auto

lemma safety_net_keeps_counters: "lazy_labors (check_dwarves s) = fst (snd (balance_labors s))"
  by (cases "balance_labors s") (simp add: check_dwarves_def lazy_labors_store)

text \<open>
  Claim C2 on the world \<open>eight_idle\<close>. After the pass all eight eligible dwarves hold
  labor 0, while its \<open>active\<close> counter is 2: the safety net sets the flag of six of
  them without counting.
\<close>

theorem eight_idle_active_stale:
  "holders (units (check_dwarves eight_idle)) 0 = 8
   \<and> active (lazy_labors (check_dwarves eight_idle) ! 0) = 2"
  by code_simp

text \<open>
  Claim C3 on the world \<open>eight_idle\<close>. After the pass labor 0, whose maximum is 7, is
  held by eight eligible dwarves; after the loop over the labors it was held by two.
\<close>

theorem eight_idle_above_maximum:
  "maximum (lazy_labors (check_dwarves eight_idle) ! 0) = 7
   \<and> holders (snd (snd (balance_labors eight_idle))) 0 = 2
   \<and> map (\<lambda>u. can_work u \<and> labors u 0) (units (check_dwarves eight_idle)) = replicate 8 True"
  by code_simp

text \<open>
  Claim C6 on the world \<open>eight_idle\<close>. The first pass leaves labor 0 enabled on all
  eight dwarves with the counter at 2; a second pass right after it disables the labor
  on the last dwarf and leaves the counter at 7.
\<close>

theorem eight_idle_second_pass_changes:
  "map (\<lambda>u. labors u 0) (units (check_dwarves eight_idle)) = replicate 8 True
   \<and> map (\<lambda>u. labors u 0) (units (check_dwarves (check_dwarves eight_idle)))
       = replicate 7 True @ [False]
   \<and> map active (lazy_labors (check_dwarves eight_idle)) = [2]
   \<and> map active (lazy_labors (check_dwarves (check_dwarves eight_idle))) = [7]"
  by code_simp

subsection \<open>The total skill of a worker\<close>

text \<open>Every sort adds the ratings of the worker's skills to \<open>total_skill\<close>.\<close>

lemma scan_skills_total:
  "total_skill (fold (scan_skill sk) rs w) = total_skill w + sum_list (map rating rs)"
  by (induction rs arbitrary: w) (simp_all add: scan_skill_def Let_def)

lemma profile_worker_total:
  "total_skill (profile_worker us sk w)
     = total_skill w + sum_list (map rating (soul_skills (us ! unit_ix w)))"
  by (simp add: profile_worker_def scan_skills_total)

text \<open>
  Claim C4 on the world \<open>lone\<close>. The only dwarf knows one skill, of rating 5. The pass
  sorts the workers twice, for labor 0 and for labor 1; after the second sort the
  worker's \<open>total_skill\<close> is 10.
\<close>

theorem lone_total_skill_accumulates:
  "map (\<lambda>u. sum_list (map rating (soul_skills u))) (units lone) = [5]
   \<and> map total_skill (sortUnitsBySkill (units lone) [new_worker 0] (JobSkill 0)) = [5]
   \<and> map total_skill (fst (balance_labors lone)) = [10]"
  by code_simp

section \<open>The uniformed labors\<close>

text \<open>
  \<open>initialize_skills\<close> marks \<open>MINE\<close>, \<open>CUTWOOD\<close> and \<open>HUNT\<close> as uniformed and leaves
  them the bounds of a skilled labor, and the loop over the labors and the safety net
  take their turn with them.

  Claim C8 as stated, that a pass never enables or disables a uniformed labor for any
  worker, fails. In the world \<open>guild\<close> nobody who can work holds \<open>MINE\<close>, whose minimum
  is 2, eight dwarves hold \<open>CUTWOOD\<close>, whose maximum is 7, and two hold \<open>HUNT\<close>. The
  pass enables \<open>MINE\<close> for the two idle dwarves (units 0 and 1), disables \<open>CUTWOOD\<close>
  for the least skilled woodcutter (unit 9), who is then without skilled labor, and
  enables \<open>HUNT\<close> for this dwarf in the safety net. Before and after the pass every
  dwarf holds at most one of the three labors, and the soldier (unit 12) is as before.
\<close>

theorem guild_uniformed_labors_counterexample:
  "map uniformed (lazy_labors guild) = [True, True, True]
   \<and> map can_work (units guild)
       = [True, True, True, True, True, True, True, True, True, True, True, True, False]
   \<and> map (\<lambda>u. map (labors u) [0, 1, 2]) (units guild)
       = [[False, False, False], [False, False, False],
          [False, True, False], [False, True, False], [False, True, False], [False, True, False],
          [False, True, False], [False, True, False], [False, True, False], [False, True, False],
          [False, False, True], [False, False, True], [True, False, False]]
   \<and> map (\<lambda>u. map (labors u) [0, 1, 2]) (units (check_dwarves guild))
       = [[True, False, False], [True, False, False],
          [False, True, False], [False, True, False], [False, True, False], [False, True, False],
          [False, True, False], [False, True, False], [False, True, False], [False, False, True],
          [False, False, True], [False, False, True], [True, False, False]]"
  by code_simp

text \<open>
  How many uniformed labors one worker may hold is not among the properties of this
  section. The walk of the deficit correction does not read the field \<open>uniform\<close> of a
  worker: in the fortress with a single idle dwarf it enables all three uniformed labors
  for this dwarf, where the header of the source calls mining, hunting and woodchopping
  mutually exclusive.
\<close>

lemma uniformed_fort_pass:
  "map uniformed (lazy_labors uniformed_fort) = [True, True, True]
   \<and> map can_work (units uniformed_fort) = [True]
   \<and> map (labors (units uniformed_fort ! 0)) [0, 1, 2] = [False, False, False]
   \<and> map (labors (units (check_dwarves uniformed_fort) ! 0)) [0, 1, 2] = [True, True, True]"
  by code_simp

subsection \<open>Units that are not eligible\<close>

text \<open>
  The workers stand for the eligible units, and both walks and the safety net write
  through a worker only. A unit that is not eligible is never written to.
\<close>

lemma set_eligible: "j \<in> set (eligible us) \<longleftrightarrow> j < length us \<and> can_work (us ! j)"
  by (auto simp: eligible_def)

lemma worker_units:
  "pass_inv ws ll us \<Longrightarrow> unit_ix ` set ws = set (eligible us)"
proof -
  assume "pass_inv ws ll us"
  then have "mset (map unit_ix ws) = mset (eligible us)" by (simp add: pass_inv_def)
  from mset_eq_setD [OF this] show ?thesis by simp
qed

lemma check_labor_eligible: "eligible (snd (snd (check_labor k (ws, ll, us)))) = eligible us"
  by (rule eligible_cong) simp_all

lemma check_labor_rest:
  assumes "pass_inv ws ll us" and "j \<notin> set (eligible us)"
  shows "snd (snd (check_labor k (ws, ll, us))) ! j = us ! j"
proof -
  let ?ranked = "sortUnitsBySkill us ws (skill (ll ! k))"
  from assms have "j \<notin> unit_ix ` set ws" by (simp add: worker_units)
  with set_unit_ix_sortUnitsBySkill [of us ws "skill (ll ! k)"]
  have out: "j \<notin> unit_ix ` set ?ranked" by simp
  have a: "snd (snd (add_labor k ?ranked n ll us)) ! j = us ! j" for n
    by (rule add_labor_rest [OF out])
  have r: "snd (snd (remove_labor k ?ranked m e ll us)) ! j = us ! j" for m e
    by (rule remove_labor_rest [OF out])
  show ?thesis by (simp add: a r)
qed

lemma labor_loop_rest:
  assumes "pass_inv ws ll us" and "\<forall>k\<in>set ks. k < length ll" and "j \<notin> set (eligible us)"
  shows "snd (snd (fold check_labor ks (ws, ll, us))) ! j = us ! j
       \<and> eligible (snd (snd (fold check_labor ks (ws, ll, us)))) = eligible us"
  using assms
proof (induction ks arbitrary: ws ll us)
  case Nil
  then show ?case by simp
next
  case (Cons k ks)
  obtain ws1 ll1 us1 where step: "check_labor k (ws, ll, us) = (ws1, ll1, us1)"
    by (cases "check_labor k (ws, ll, us)")
  from Cons.prems(2) have k: "k < length ll" by simp
  have inv1: "pass_inv ws1 ll1 us1" by (rule pass_inv_check_labor [OF Cons.prems(1) k step])
  have len1: "length ll1 = length ll"
    using check_labor_table_length [of k ws ll us] step by simp
  with Cons.prems(2) have ks: "\<forall>k\<in>set ks. k < length ll1" by simp
  have el: "eligible us1 = eligible us" using check_labor_eligible [of k ws ll us] step by simp
  with Cons.prems(3) have out: "j \<notin> set (eligible us1)" by simp
  have same: "us1 ! j = us ! j"
    using check_labor_rest [OF Cons.prems(1,3), of k] step by simp
  have "fold check_labor (k # ks) (ws, ll, us) = fold check_labor ks (ws1, ll1, us1)"
    using step by simp
  with Cons.IH [OF inv1 ks out] same el show ?case by simp
qed

lemma enable_selected_rest: "j \<noteq> i \<Longrightarrow> enable_selected us i sel ! j = us ! j"
  by (cases sel) (simp_all add: enable_selected_def set_labor_def)

lemma cover_worker_rest:
  assumes "j \<noteq> unit_ix w"
  shows "fst (cover_worker ll w (us, g)) ! j = us ! j"
proof -
  have a: "fst (enable_skilled ll w us r) ! j = us ! j" for r
    using assms by (cases r) (simp add: enable_selected_rest Let_def)
  have b: "fst (enable_unskilled w us r) ! j = us ! j" for r
    using assms by (cases r) (simp add: enable_selected_rest)
  show ?thesis using a b by simp
qed

lemma cover_workers_rest:
  "j \<notin> unit_ix ` set ws \<Longrightarrow> fst (fold (cover_worker ll) ws x) ! j = fst x ! j"
proof (induction ws arbitrary: x)
  case Nil
  then show ?case by simp
next
  case (Cons w ws)
  obtain us g where x: "x = (us, g)" by (cases x)
  from Cons.prems have ne: "j \<noteq> unit_ix w" and rest: "j \<notin> unit_ix ` set ws" by auto
  have "fst (cover_worker ll w (us, g)) ! j = us ! j" by (rule cover_worker_rest [OF ne])
  with Cons.IH [OF rest, of "cover_worker ll w (us, g)"] x show ?case by simp
qed

text \<open>The whole pass leaves a unit that is not eligible as it is.\<close>

lemma pass_skips_ineligible:
  assumes "\<not> (j < length (units s) \<and> can_work (units s ! j))"
  shows "units (check_dwarves s) ! j = units s ! j"
proof -
  obtain ws ll us where bl: "balance_labors s = (ws, ll, us)" by (cases "balance_labors s")
  then have at: "at_labor s (length (lazy_labors s)) = (ws, ll, us)"
    by (simp only: balance_labors_at_labor)
  then have run: "fold check_labor [0..<length (lazy_labors s)]
      (snd (recount s), fst (recount s), units s) = (ws, ll, us)"
    by (simp only: at_labor_def)
  from assms have out: "j \<notin> set (eligible (units s))" by (simp add: set_eligible)
  have ks: "\<forall>k\<in>set [0..<length (lazy_labors s)]. k < length (fst (recount s))" by simp
  from labor_loop_rest [OF pass_inv_recount ks out]
  have same: "us ! j = units s ! j" and el: "eligible us = eligible (units s)"
    by (simp_all only: run snd_conv)
  from pass_inv_at_labor [OF le_refl at] have inv: "pass_inv ws ll us" by simp
  from out el have "j \<notin> set (eligible us)" by simp
  with inv have "j \<notin> unit_ix ` set ws" by (simp add: worker_units)
  from cover_workers_rest [OF this, of ll "(us, (rand_seq s, rand_calls s))"]
  have "fst (fold (cover_worker ll) ws (us, (rand_seq s, rand_calls s))) ! j = us ! j" by simp
  with same bl show ?thesis by (simp add: check_dwarves_def)
qed

subsection \<open>Where a flag is set\<close>

text \<open>
  The surplus walk only clears flags, so the loop over the labors sets the flag of a
  labor only in the turn of this labor, and only when its counter is below its minimum.
\<close>

lemma set_labor_False_flags:
  "labors (set_labor us i k False ! j) l \<Longrightarrow> labors (us ! j) l"
  by (simp add: labors_set_labor split: if_splits)

lemma remove_labor_flags_set:
  "labors (snd (snd (remove_labor k ws r e ll us)) ! j) l \<Longrightarrow> labors (us ! j) l"
proof (induction ws arbitrary: r e ll us)
  case Nil
  then show ?case by simp
next
  case (Cons w ws)
  show ?case
  proof (cases "labors (us ! unit_ix w) k")
    case False
    with Cons.prems have "labors (snd (snd (remove_labor k ws r e ll us)) ! j) l" by simp
    then show ?thesis by (rule Cons.IH)
  next
    case True
    show ?thesis
    proof (cases "r \<noteq> 0")
      case keep: True
      with True Cons.prems have "labors (snd (snd (remove_labor k ws (r - 1) e ll us)) ! j) l"
        by simp
      then show ?thesis by (rule Cons.IH)
    next
      case False
      show ?thesis
      proof (cases "e - 1 = 0")
        case stop: True
        with True False Cons.prems have "labors (set_labor us (unit_ix w) k False ! j) l" by simp
        then show ?thesis by (rule set_labor_False_flags)
      next
        case go: False
        with True False Cons.prems
        have "labors (snd (snd (remove_labor k ws r (e - 1) (add_active ll k (- 1))
                (set_labor us (unit_ix w) k False))) ! j) l"
          by simp
        then have "labors (set_labor us (unit_ix w) k False ! j) l" by (rule Cons.IH)
        then show ?thesis by (rule set_labor_False_flags)
      qed
    qed
  qed
qed

lemma check_labor_flags_set:
  assumes "\<not> active (ll ! k) < minimum (ll ! k)"
    and "labors (snd (snd (check_labor k (ws, ll, us))) ! j) l"
  shows "labors (us ! j) l"
proof (cases "maximum (ll ! k) < active (ll ! k)")
  case True
  with assms have "labors (snd (snd (remove_labor k (sortUnitsBySkill us ws (skill (ll ! k)))
      (maximum (ll ! k)) (active (ll ! k) - maximum (ll ! k)) ll us)) ! j) l"
    by simp
  then show ?thesis by (rule remove_labor_flags_set)
next
  case False
  with assms show ?thesis by simp
qed

lemma labor_loop_flags_set:
  "distinct ks \<Longrightarrow> (l \<in> set ks \<longrightarrow> \<not> active (ll ! l) < minimum (ll ! l)) \<Longrightarrow>
   labors (snd (snd (fold check_labor ks (ws, ll, us))) ! j) l \<Longrightarrow> labors (us ! j) l"
proof (induction ks arbitrary: ws ll us)
  case Nil
  then show ?case by simp
next
  case (Cons k ks)
  obtain ws1 ll1 us1 where step: "check_labor k (ws, ll, us) = (ws1, ll1, us1)"
    by (cases "check_labor k (ws, ll, us)")
  from Cons.prems(1) have dist: "distinct ks" by simp
  have later: "l \<in> set ks \<longrightarrow> \<not> active (ll1 ! l) < minimum (ll1 ! l)"
  proof
    assume mem: "l \<in> set ks"
    with Cons.prems(1) have ne: "l \<noteq> k" by auto
    from check_labor_table_other [OF ne, of ws ll us] step have "ll1 ! l = ll ! l" by simp
    with Cons.prems(2) mem show "\<not> active (ll1 ! l) < minimum (ll1 ! l)" by simp
  qed
  from Cons.prems(3) step have "labors (snd (snd (fold check_labor ks (ws1, ll1, us1))) ! j) l"
    by simp
  from Cons.IH [OF dist later this] have held1: "labors (us1 ! j) l" .
  show ?case
  proof (cases "l = k")
    case True
    with Cons.prems(2) have "\<not> active (ll ! k) < minimum (ll ! k)" by simp
    from check_labor_flags_set [OF this, of ws us j l] step held1 show ?thesis by simp
  next
    case False
    from check_labor_flags_other [OF False, of ws ll us j] step held1 show ?thesis by simp
  qed
qed

lemma enable_selected_flags:
  "labors (enable_selected us i sel ! j) l \<Longrightarrow> \<not> labors (us ! j) l \<Longrightarrow> sel = UnitLabor l"
proof (cases sel)
  case unit_labor_NONE
  then show "labors (enable_selected us i sel ! j) l \<Longrightarrow> \<not> labors (us ! j) l \<Longrightarrow> sel = UnitLabor l"
    by (simp add: enable_selected_def)
next
  case (UnitLabor k)
  assume "labors (enable_selected us i sel ! j) l" and "\<not> labors (us ! j) l"
  with UnitLabor have "k = l" by (simp add: enable_selected_def labors_set_labor split: if_splits)
  with UnitLabor show "sel = UnitLabor l" by simp
qed

text \<open>
  The safety net sets the flag of a skilled labor only for the unit of a worker whose
  tally of skilled labors is zero.
\<close>

lemma cover_worker_enables:
  assumes skilled: "skill (ll ! l) \<noteq> job_skill_NONE"
    and before: "\<not> labors (us ! j) l"
    and after: "labors (fst (cover_worker ll w (us, g)) ! j) l"
  shows "unit_ix w = j \<and> skilled w = 0"
proof -
  have unit: "unit_ix w = j"
  proof (rule ccontr)
    assume "unit_ix w \<noteq> j"
    then have "j \<noteq> unit_ix w" by simp
    from cover_worker_rest [OF this, of ll us g] before after show False by simp
  qed
  have "skilled w = 0"
  proof (rule ccontr)
    assume busy: "skilled w \<noteq> 0"
    show False
    proof (cases "unskilled w = 0")
      case False
      with busy before after show False by simp
    next
      case True
      obtain sel found g' where pick:
        "fold (sample_labor False ll) [0..<length ll] (unit_labor_NONE, 0, g) = (sel, found, g')"
        by (cases "fold (sample_labor False ll) [0..<length ll] (unit_labor_NONE, 0, g)")
      from sample_labors_selected [OF pick] skilled have "sel \<noteq> UnitLabor l" by auto
      moreover from busy True pick after
      have "labors ((if found \<noteq> 0 then enable_selected us (unit_ix w) sel else us) ! j) l"
        by simp
      ultimately show False using before enable_selected_flags [of us "unit_ix w" sel j l]
        by (auto split: if_splits)
    qed
  qed
  with unit show ?thesis by simp
qed

lemma cover_workers_enables:
  assumes "skill (ll ! l) \<noteq> job_skill_NONE"
  shows "\<not> labors (fst x ! j) l \<Longrightarrow> labors (fst (fold (cover_worker ll) ws x) ! j) l \<Longrightarrow>
         \<exists>w\<in>set ws. unit_ix w = j \<and> skilled w = 0"
proof (induction ws arbitrary: x)
  case Nil
  then show ?case by simp
next
  case (Cons w ws)
  obtain us g where x: "x = (us, g)" by (cases x)
  show ?case
  proof (cases "labors (fst (cover_worker ll w (us, g)) ! j) l")
    case True
    from cover_worker_enables [OF assms _ True] Cons.prems(1) x show ?thesis by simp
  next
    case False
    from Cons.prems(2) x have "labors (fst (fold (cover_worker ll) ws (cover_worker ll w (us, g))) ! j) l"
      by simp
    from Cons.IH [OF False this] show ?thesis by auto
  qed
qed

subsection \<open>The tally of skilled labors\<close>

text \<open>
  The field \<open>skilled\<close> of a worker is the number of skilled labors whose flag is set
  for its unit: after the recount, and after every turn of the loop over the labors,
  since each walk changes the tally together with the flag.
\<close>

lemma skilled_held_cong:
  assumes "length ll' = length ll" and "\<And>k. k < length ll \<Longrightarrow> skill (ll' ! k) = skill (ll ! k)"
  shows "skilled_held ll' u = skilled_held ll u"
proof -
  have "filter (\<lambda>k. skill (ll' ! k) \<noteq> job_skill_NONE \<and> labors u k) [0..<length ll]
      = filter (\<lambda>k. skill (ll ! k) \<noteq> job_skill_NONE \<and> labors u k) [0..<length ll]"
    by (rule filter_cong) (simp_all add: assms(2))
  with assms(1) show ?thesis by (simp add: skilled_held_def)
qed

lemma skilled_held_static:
  assumes "length ll' = length ll" and "\<And>k. (ll' ! k)\<lparr>active := 0\<rparr> = (ll ! k)\<lparr>active := 0\<rparr>"
  shows "skilled_held ll' u = skilled_held ll u"
  by (rule skilled_held_cong [OF assms(1)]) (rule static_fields(1) [OF assms(2)])

lemma skilled_held_add_active [simp]: "skilled_held (add_active ll k d) u = skilled_held ll u"
  by (rule skilled_held_static) simp_all

lemma skilled_held_none:
  assumes "skilled_held ll u = 0" and "k < length ll" and "skill (ll ! k) \<noteq> job_skill_NONE"
  shows "\<not> labors u k"
proof
  assume "labors u k"
  with assms(2,3)
  have "k \<in> set (filter (\<lambda>k. skill (ll ! k) \<noteq> job_skill_NONE \<and> labors u k) [0..<length ll])"
    by simp
  then have "0 < length (filter (\<lambda>k. skill (ll ! k) \<noteq> job_skill_NONE \<and> labors u k)
      [0..<length ll])"
    by (rule length_pos_if_in_set)
  with assms(1) show False by (simp add: skilled_held_def)
qed

lemma upt_split: "k < n \<Longrightarrow> [0..<n] = [0..<k] @ k # [Suc k..<n]"
  by (metis le_add1 le_add_same_cancel1 less_imp_add_positive upt_add_eq_append upt_conv_Cons)

lemma count_flip:
  assumes "k < n" and "\<And>i. i \<noteq> k \<Longrightarrow> Q i = P i"
  shows "int (length (filter Q [0..<n]))
       = int (length (filter P [0..<n])) + (if Q k then 1 else 0) - (if P k then 1 else 0)"
proof -
  from assms(1) have split: "[0..<n] = [0..<k] @ k # [Suc k..<n]" by (rule upt_split)
  have a: "filter Q [0..<k] = filter P [0..<k]" by (rule filter_cong) (simp_all add: assms(2))
  have b: "filter Q [Suc k..<n] = filter P [Suc k..<n]" by (rule filter_cong) (simp_all add: assms(2))
  show ?thesis by (simp only: split filter_append filter.simps a b) simp
qed

lemma labors_set_flag: "labors (set_flag k b u) i = (if i = k then b else labors u i)"
  by (simp add: set_flag_def array_set_def)

lemma skilled_held_set_flag:
  assumes "k < length ll" and "labors u k \<noteq> b"
  shows "skilled_held ll (set_flag k b u)
       = skilled_held ll u + (if skill (ll ! k) = job_skill_NONE then 0 else if b then 1 else - 1)"
proof -
  have "int (length (filter (\<lambda>i. skill (ll ! i) \<noteq> job_skill_NONE \<and> labors (set_flag k b u) i)
            [0..<length ll]))
      = int (length (filter (\<lambda>i. skill (ll ! i) \<noteq> job_skill_NONE \<and> labors u i) [0..<length ll]))
        + (if skill (ll ! k) \<noteq> job_skill_NONE \<and> labors (set_flag k b u) k then 1 else 0)
        - (if skill (ll ! k) \<noteq> job_skill_NONE \<and> labors u k then 1 else 0)"
    by (rule count_flip [OF assms(1)]) (simp add: labors_set_flag)
  with assms(2) show ?thesis by (auto simp: skilled_held_def labors_set_flag)
qed

lemma skilled_add_tally:
  "skilled (add_tally ll k d w) = skilled w + (if skill (ll ! k) = job_skill_NONE then 0 else d)"
  by (simp add: add_tally_def)

text \<open>After the recount.\<close>

lemma count_labor_skilled:
  "skilled (snd (count_labor d k r))
     = skilled (snd r) + (if skill (fst r ! k) \<noteq> job_skill_NONE \<and> labors d k then 1 else 0)"
  by (cases r) (simp add: Let_def)

lemma count_labor_skill: "skill (fst (count_labor d k r) ! l) = skill (fst r ! l)"
  by (rule static_fields(1)) simp

lemma count_labors_skilled:
  "skilled (snd (fold (count_labor d) ks r))
     = skilled (snd r)
       + int (length (filter (\<lambda>k. skill (fst r ! k) \<noteq> job_skill_NONE \<and> labors d k) ks))"
proof (induction ks arbitrary: r)
  case Nil
  then show ?case by simp
next
  case (Cons k ks)
  from Cons.IH [of "count_labor d k r"] count_labor_skilled [of d k r]
  show ?case by (simp add: count_labor_skill)
qed

lemma count_units_tally:
  assumes "\<forall>w\<in>set (snd r). skilled w = skilled_held (fst r) ((pre @ ds) ! unit_ix w)"
    and "i = length pre"
  shows "\<forall>w\<in>set (snd (count_units ds i r)).
           skilled w = skilled_held (fst r) ((pre @ ds) ! unit_ix w)"
  using assms
proof (induction ds arbitrary: pre i r)
  case Nil
  then show ?case by (cases r) simp
next
  case (Cons d ds)
  obtain ll ws where r: "r = (ll, ws)" by (cases r)
  from Cons.prems(2) have i: "Suc i = length (pre @ [d])" by simp
  show ?case
  proof (cases "can_work d")
    case False
    from Cons.prems(1)
    have "\<forall>w\<in>set (snd r). skilled w = skilled_held (fst r) (((pre @ [d]) @ ds) ! unit_ix w)"
      by simp
    from Cons.IH [OF this i] False r show ?thesis by simp
  next
    case True
    let ?c = "fold (count_labor d) [0..<length ll] (ll, new_worker i)"
    let ?r = "push_back ws ?c"
    have held: "skilled_held (fst ?c) u = skilled_held ll u" for u
      by (rule skilled_held_static) simp_all
    have new: "skilled (snd ?c) = skilled_held ll d"
      by (simp add: count_labors_skilled skilled_held_def new_worker_def)
    have ix: "unit_ix (snd ?c) = i" by (simp add: new_worker_def)
    have "\<forall>w\<in>set (snd ?r). skilled w = skilled_held (fst ?r) (((pre @ [d]) @ ds) ! unit_ix w)"
    proof
      fix w assume "w \<in> set (snd ?r)"
      then consider "w \<in> set ws" | "w = snd ?c" by auto
      then show "skilled w = skilled_held (fst ?r) (((pre @ [d]) @ ds) ! unit_ix w)"
      proof cases
        case 1
        with Cons.prems(1) r show ?thesis by (simp add: held)
      next
        case 2
        have "((pre @ [d]) @ ds) ! i = d" using Cons.prems(2) by (simp add: nth_append)
        with 2 new ix show ?thesis by (simp add: held)
      qed
    qed
    from Cons.IH [OF this i]
    have "\<forall>w\<in>set (snd (count_units ds (Suc i) ?r)).
            skilled w = skilled_held ll ((pre @ d # ds) ! unit_ix w)"
      by (simp add: held)
    with True r show ?thesis by simp
  qed
qed

lemma tallied_recount: "tallied (snd (recount s)) (fst (recount s)) (units s)"
proof -
  let ?r = "(map (\<lambda>l. l\<lparr>active := 0\<rparr>) (lazy_labors s), [] :: worker list)"
  have "\<forall>w\<in>set (snd ?r). skilled w = skilled_held (fst ?r) (([] @ units s) ! unit_ix w)" by simp
  from count_units_tally [OF this, of 0]
  have "\<forall>w\<in>set (snd (recount s)). skilled w = skilled_held (fst ?r) (units s ! unit_ix w)"
    by (simp add: recount_def)
  moreover have "skilled_held (fst (recount s)) u = skilled_held (fst ?r) u" for u
    by (rule skilled_held_static) (simp_all add: recount_def)
  ultimately show ?thesis by (simp add: tallied_def)
qed

text \<open>Through the two walks.\<close>

lemma set_labor_other: "j \<noteq> i \<Longrightarrow> set_labor us i k b ! j = us ! j"
  by (simp add: set_labor_def)

lemma set_labor_same: "i < length us \<Longrightarrow> set_labor us i k b ! i = set_flag k b (us ! i)"
  by (simp add: set_labor_def)

lemma add_labor_tally:
  assumes "distinct (map unit_ix ws)" and "\<forall>w\<in>set ws. unit_ix w < length us"
    and "k < length ll"
    and "\<forall>w\<in>set ws. skilled w = skilled_held ll (us ! unit_ix w)"
  shows "\<forall>w\<in>set (fst (add_labor k ws n ll us)).
           skilled w = skilled_held ll (snd (snd (add_labor k ws n ll us)) ! unit_ix w)"
  using assms
proof (induction ws arbitrary: n ll us)
  case Nil
  then show ?case by simp
next
  case (Cons w ws)
  from Cons.prems(1) have dist: "distinct (map unit_ix ws)"
    and fresh: "unit_ix w \<notin> unit_ix ` set ws" by simp_all
  from Cons.prems(2) have range: "\<forall>w\<in>set ws. unit_ix w < length us"
    and here: "unit_ix w < length us" by simp_all
  from Cons.prems(4) have tail: "\<forall>w\<in>set ws. skilled w = skilled_held ll (us ! unit_ix w)"
    and head: "skilled w = skilled_held ll (us ! unit_ix w)" by simp_all
  show ?case
  proof (cases "labors (us ! unit_ix w) k")
    case True
    have "snd (snd (add_labor k ws n ll us)) ! unit_ix w = us ! unit_ix w"
      by (rule add_labor_rest [OF fresh])
    with head Cons.IH [OF dist range Cons.prems(3) tail, of n] True
    show ?thesis by simp
  next
    case False
    let ?us = "set_labor us (unit_ix w) k True"
    let ?ll = "add_active ll k 1"
    let ?w = "add_tally ll k 1 w"
    have range1: "\<forall>w\<in>set ws. unit_ix w < length ?us" using range by simp
    have k1: "k < length ?ll" using Cons.prems(3) by simp
    have tail1: "\<forall>w'\<in>set ws. skilled w' = skilled_held ?ll (?us ! unit_ix w')"
    proof
      fix w' assume mem: "w' \<in> set ws"
      with fresh have "unit_ix w' \<noteq> unit_ix w" by (metis imageI)
      then have "?us ! unit_ix w' = us ! unit_ix w'" by (rule set_labor_other)
      with tail mem show "skilled w' = skilled_held ?ll (?us ! unit_ix w')" by simp
    qed
    have head1: "skilled ?w = skilled_held ll (?us ! unit_ix w)"
      using head False skilled_held_set_flag [OF Cons.prems(3), of "us ! unit_ix w" True]
      by (simp add: set_labor_same [OF here] skilled_add_tally)
    show ?thesis
    proof (cases "n - 1 = 0")
      case True
      with False head1 tail1 show ?thesis by simp
    next
      case go: False
      have "snd (snd (add_labor k ws (n - 1) ?ll ?us)) ! unit_ix w = ?us ! unit_ix w"
        by (rule add_labor_rest [OF fresh])
      with head1 Cons.IH [OF dist range1 k1 tail1, of "n - 1"] False go
      show ?thesis by simp
    qed
  qed
qed

lemma remove_labor_tally:
  assumes "distinct (map unit_ix ws)" and "\<forall>w\<in>set ws. unit_ix w < length us"
    and "k < length ll"
    and "\<forall>w\<in>set ws. skilled w = skilled_held ll (us ! unit_ix w)"
  shows "\<forall>w\<in>set (fst (remove_labor k ws r e ll us)).
           skilled w = skilled_held ll (snd (snd (remove_labor k ws r e ll us)) ! unit_ix w)"
  using assms
proof (induction ws arbitrary: r e ll us)
  case Nil
  then show ?case by simp
next
  case (Cons w ws)
  from Cons.prems(1) have dist: "distinct (map unit_ix ws)"
    and fresh: "unit_ix w \<notin> unit_ix ` set ws" by simp_all
  from Cons.prems(2) have range: "\<forall>w\<in>set ws. unit_ix w < length us"
    and here: "unit_ix w < length us" by simp_all
  from Cons.prems(4) have tail: "\<forall>w\<in>set ws. skilled w = skilled_held ll (us ! unit_ix w)"
    and head: "skilled w = skilled_held ll (us ! unit_ix w)" by simp_all
  have kept: "snd (snd (remove_labor k ws r' e' ll us)) ! unit_ix w = us ! unit_ix w" for r' e'
    by (rule remove_labor_rest [OF fresh])
  show ?case
  proof (cases "labors (us ! unit_ix w) k")
    case False
    with head kept [of r e] Cons.IH [OF dist range Cons.prems(3) tail, of r e]
    show ?thesis by simp
  next
    case True
    show ?thesis
    proof (cases "r \<noteq> 0")
      case keep: True
      with True head kept [of "r - 1" e] Cons.IH [OF dist range Cons.prems(3) tail, of "r - 1" e]
      show ?thesis by simp
    next
      case False
      let ?us = "set_labor us (unit_ix w) k False"
      let ?ll = "add_active ll k (- 1)"
      let ?w = "add_tally ll k (- 1) w"
      have range1: "\<forall>w\<in>set ws. unit_ix w < length ?us" using range by simp
      have k1: "k < length ?ll" using Cons.prems(3) by simp
      have tail1: "\<forall>w'\<in>set ws. skilled w' = skilled_held ?ll (?us ! unit_ix w')"
      proof
        fix w' assume mem: "w' \<in> set ws"
        with fresh have "unit_ix w' \<noteq> unit_ix w" by (metis imageI)
        then have "?us ! unit_ix w' = us ! unit_ix w'" by (rule set_labor_other)
        with tail mem show "skilled w' = skilled_held ?ll (?us ! unit_ix w')" by simp
      qed
      have head1: "skilled ?w = skilled_held ll (?us ! unit_ix w)"
        using head True skilled_held_set_flag [OF Cons.prems(3), of "us ! unit_ix w" False]
        by (simp add: set_labor_same [OF here] skilled_add_tally)
      show ?thesis
      proof (cases "e - 1 = 0")
        case stop: True
        with True False head1 tail1 show ?thesis by simp
      next
        case go: False
        have "snd (snd (remove_labor k ws r (e - 1) ?ll ?us)) ! unit_ix w = ?us ! unit_ix w"
          by (rule remove_labor_rest [OF fresh])
        with head1 Cons.IH [OF dist range1 k1 tail1, of r "e - 1"] True False go
        show ?thesis by simp
      qed
    qed
  qed
qed

text \<open>Through the loop over the labors.\<close>

lemma set_sortUnitsBySkill:
  "set (sortUnitsBySkill us ws sk) = profile_worker us sk ` set ws"
  using arg_cong [OF mset_sortUnitsBySkill [of us ws sk], of set_mset] by simp

lemma tallied_check_labor:
  assumes inv: "pass_inv ws ll us" and k: "k < length ll" and tal: "tallied ws ll us"
    and step: "check_labor k (ws, ll, us) = (ws', ll', us')"
  shows "tallied ws' ll' us'"
proof -
  from inv have ixs: "mset (map unit_ix ws) = mset (eligible us)" by (simp add: pass_inv_def)
  let ?ranked = "sortUnitsBySkill us ws (skill (ll ! k))"
  have rixs: "mset (map unit_ix ?ranked) = mset (eligible us)"
    using ixs by (simp only: mset_unit_ix_sortUnitsBySkill)
  have rdist: "distinct (map unit_ix ?ranked)" by (rule workers_distinct [OF rixs])
  have rrange: "\<forall>w\<in>set ?ranked. unit_ix w < length us"
    using workers_range [OF rixs] by simp
  have rtal: "\<forall>w\<in>set ?ranked. skilled w = skilled_held ll (us ! unit_ix w)"
    using tal by (simp add: set_sortUnitsBySkill tallied_def)
  have same: "skilled_held ll' u = skilled_held ll u" for u
  proof (rule skilled_held_static)
    show "length ll' = length ll" using check_labor_table_length [of k ws ll us] step by simp
    show "(ll' ! l)\<lparr>active := 0\<rparr> = (ll ! l)\<lparr>active := 0\<rparr>" for l
      using check_labor_static [of k "(ws, ll, us)" l] step by simp
  qed
  have "\<forall>w\<in>set ws'. skilled w = skilled_held ll (us' ! unit_ix w)"
  proof (cases "active (ll ! k) < minimum (ll ! k)")
    case True
    with step add_labor_tally [OF rdist rrange k rtal, of "minimum (ll ! k) - active (ll ! k)"]
    show ?thesis by simp
  next
    case False
    show ?thesis
    proof (cases "maximum (ll ! k) < active (ll ! k)")
      case True
      with False step remove_labor_tally [OF rdist rrange k rtal, of "maximum (ll ! k)"
          "active (ll ! k) - maximum (ll ! k)"]
      show ?thesis by simp
    next
      case over: False
      with False step tal show ?thesis by (simp add: tallied_def)
    qed
  qed
  then show ?thesis by (simp add: tallied_def same)
qed

lemma tallied_labors:
  assumes "pass_inv ws ll us" and "\<forall>k\<in>set ks. k < length ll" and "tallied ws ll us"
    and "fold check_labor ks (ws, ll, us) = (ws', ll', us')"
  shows "tallied ws' ll' us'"
  using assms
proof (induction ks arbitrary: ws ll us)
  case Nil
  then show ?case by simp
next
  case (Cons k ks)
  obtain ws1 ll1 us1 where step: "check_labor k (ws, ll, us) = (ws1, ll1, us1)"
    by (cases "check_labor k (ws, ll, us)")
  from Cons.prems(2) have k: "k < length ll" by simp
  have inv1: "pass_inv ws1 ll1 us1" by (rule pass_inv_check_labor [OF Cons.prems(1) k step])
  have tal1: "tallied ws1 ll1 us1" by (rule tallied_check_labor [OF Cons.prems(1) k Cons.prems(3) step])
  have "length ll1 = length ll" using check_labor_table_length [of k ws ll us] step by simp
  with Cons.prems(2) have ks: "\<forall>k\<in>set ks. k < length ll1" by simp
  from Cons.prems(4) step have "fold check_labor ks (ws1, ll1, us1) = (ws', ll', us')" by simp
  from Cons.IH [OF inv1 ks tal1 this] show ?case .
qed

lemma tallied_balance_labors:
  assumes "balance_labors s = (ws, ll, us)"
  shows "tallied ws ll us"
proof -
  from assms have "at_labor s (length (lazy_labors s)) = (ws, ll, us)"
    by (simp only: balance_labors_at_labor)
  then have run: "fold check_labor [0..<length (lazy_labors s)]
      (snd (recount s), fst (recount s), units s) = (ws, ll, us)"
    by (simp only: at_labor_def)
  have ks: "\<forall>k\<in>set [0..<length (lazy_labors s)]. k < length (fst (recount s))" by simp
  from tallied_labors [OF pass_inv_recount ks tallied_recount run] show ?thesis .
qed

subsection \<open>What a pass changes of a uniformed labor\<close>

text \<open>
  Claim C8, amended. Let a labor be uniformed and have a skill, as the three labors have
  that \<open>initialize_skills\<close> marks. A unit that is not eligible, one on military duty
  for instance, comes out of a pass as it went in. For any unit, a pass clears the flag
  of the labor only if more eligible units held the labor than its maximum when the pass
  began, which is the surplus correction; and a pass sets the flag of the labor only if
  fewer eligible units held the labor than its minimum when the pass began, which is the
  deficit correction, or if the unit held no skilled labor at all when the loop over the
  labors had ended, which is the safety net.
\<close>

theorem uniformed_labor_changes_bounded:
  assumes "l < length (lazy_labors s)" and "uniformed (lazy_labors s ! l)"
    and "skill (lazy_labors s ! l) \<noteq> job_skill_NONE"
  shows "(\<not> (j < length (units s) \<and> can_work (units s ! j))
            \<longrightarrow> units (check_dwarves s) ! j = units s ! j)
       \<and> (labors (units s ! j) l \<and> \<not> labors (units (check_dwarves s) ! j) l
            \<longrightarrow> maximum (lazy_labors s ! l) < holders (units s) l)
       \<and> (\<not> labors (units s ! j) l \<and> labors (units (check_dwarves s) ! j) l
            \<longrightarrow> holders (units s) l < minimum (lazy_labors s ! l)
              \<or> (\<forall>k<length (lazy_labors s). skill (lazy_labors s ! k) \<noteq> job_skill_NONE
                    \<longrightarrow> \<not> labors (snd (snd (balance_labors s)) ! j) k))"
proof -
  obtain ws ll us where bl: "balance_labors s = (ws, ll, us)" by (cases "balance_labors s")
  then have at: "at_labor s (length (lazy_labors s)) = (ws, ll, us)"
    by (simp only: balance_labors_at_labor)
  then have run: "fold check_labor [0..<length (lazy_labors s)]
      (snd (recount s), fst (recount s), units s) = (ws, ll, us)"
    by (simp only: at_labor_def)
  have after: "units (check_dwarves s)
      = fst (fold (cover_worker ll) ws (us, (rand_seq s, rand_calls s)))"
    using bl by (simp add: check_dwarves_def)
  from pass_inv_at_labor [OF le_refl at] have len: "length ll = length (lazy_labors s)" by simp
  have sk: "skill (ll ! k) = skill (lazy_labors s ! k)" if "k < length (lazy_labors s)" for k
  proof -
    from check_labors_static [of "[0..<length (lazy_labors s)]"
        "(snd (recount s), fst (recount s), units s)" k] run
    have "(ll ! k)\<lparr>active := 0\<rparr> = (fst (recount s) ! k)\<lparr>active := 0\<rparr>" by simp
    with recount_static [OF that]
    have "(ll ! k)\<lparr>active := 0\<rparr> = (lazy_labors s ! k)\<lparr>active := 0\<rparr>" by simp
    then show ?thesis by (rule static_fields(1))
  qed
  have p1: "\<not> (j < length (units s) \<and> can_work (units s ! j))
      \<longrightarrow> units (check_dwarves s) ! j = units s ! j"
    using pass_skips_ineligible [of j s] by blast
  have p2: "labors (units s ! j) l \<and> \<not> labors (units (check_dwarves s) ! j) l
      \<longrightarrow> maximum (lazy_labors s ! l) < holders (units s) l"
  proof (intro impI, rule ccontr)
    assume ch: "labors (units s ! j) l \<and> \<not> labors (units (check_dwarves s) ! j) l"
      and "\<not> maximum (lazy_labors s ! l) < holders (units s) l"
    then have "\<not> maximum (fst (recount s) ! l) < active (fst (recount s) ! l)"
      by (simp add: recount_maximum [OF assms(1)] recount_active [OF assms(1)])
    then have within: "l \<in> set [0..<length (lazy_labors s)]
        \<longrightarrow> \<not> maximum (fst (recount s) ! l) < active (fst (recount s) ! l)"
      by simp
    from ch have held: "labors (units s ! j) l" by simp
    from labor_loop_flags_kept [OF distinct_upt within held, of "snd (recount s)"] run
    have "labors (us ! j) l" by simp
    then have "labors (fst (fold (cover_worker ll) ws (us, (rand_seq s, rand_calls s))) ! j) l"
      by (simp add: cover_workers_flags_kept)
    with ch after show False by simp
  qed
  have p3: "\<not> labors (units s ! j) l \<and> labors (units (check_dwarves s) ! j) l
      \<longrightarrow> holders (units s) l < minimum (lazy_labors s ! l)
        \<or> (\<forall>k<length (lazy_labors s). skill (lazy_labors s ! k) \<noteq> job_skill_NONE
              \<longrightarrow> \<not> labors (snd (snd (balance_labors s)) ! j) k)"
  proof (intro impI)
    assume ch: "\<not> labors (units s ! j) l \<and> labors (units (check_dwarves s) ! j) l"
    show "holders (units s) l < minimum (lazy_labors s ! l)
        \<or> (\<forall>k<length (lazy_labors s). skill (lazy_labors s ! k) \<noteq> job_skill_NONE
              \<longrightarrow> \<not> labors (snd (snd (balance_labors s)) ! j) k)"
    proof (cases "holders (units s) l < minimum (lazy_labors s ! l)")
      case True
      then show ?thesis by simp
    next
      case False
      have "minimum (fst (recount s) ! l) = minimum (lazy_labors s ! l)"
        by (rule static_fields(2) [OF recount_static [OF assms(1)]])
      with False have enough: "l \<in> set [0..<length (lazy_labors s)]
          \<longrightarrow> \<not> active (fst (recount s) ! l) < minimum (fst (recount s) ! l)"
        by (simp add: recount_active [OF assms(1)])
      have off: "\<not> labors (us ! j) l"
      proof
        assume "labors (us ! j) l"
        with run have "labors (snd (snd (fold check_labor [0..<length (lazy_labors s)]
            (snd (recount s), fst (recount s), units s))) ! j) l"
          by simp
        from labor_loop_flags_set [OF distinct_upt enough this] ch show False by simp
      qed
      from assms(3) sk [OF assms(1)] have skl: "skill (ll ! l) \<noteq> job_skill_NONE" by simp
      from ch after
      have on: "labors (fst (fold (cover_worker ll) ws (us, (rand_seq s, rand_calls s))) ! j) l"
        by simp
      from cover_workers_enables [OF skl, where x = "(us, (rand_seq s, rand_calls s))"
          and j = j and ws = ws] off on
      obtain w where w: "w \<in> set ws" "unit_ix w = j" "skilled w = 0" by auto
      from tallied_balance_labors [OF bl] w have none: "skilled_held ll (us ! j) = 0"
        by (auto simp: tallied_def)
      have "\<forall>k<length (lazy_labors s). skill (lazy_labors s ! k) \<noteq> job_skill_NONE
              \<longrightarrow> \<not> labors (us ! j) k"
      proof (intro allI impI)
        fix k assume k: "k < length (lazy_labors s)"
          and "skill (lazy_labors s ! k) \<noteq> job_skill_NONE"
        with sk [OF k] have "skill (ll ! k) \<noteq> job_skill_NONE" by simp
        from skilled_held_none [OF none _ this] k len show "\<not> labors (us ! j) k" by simp
      qed
      with bl show ?thesis by simp
    qed
  qed
  from p1 p2 p3 show ?thesis by blast
qed

theorem uniformed_labor_changes_bounded_witness:
  "2 < length (lazy_labors guild) \<and> uniformed (lazy_labors guild ! 0)
   \<and> uniformed (lazy_labors guild ! 1) \<and> uniformed (lazy_labors guild ! 2)
   \<and> skill (lazy_labors guild ! 0) \<noteq> job_skill_NONE
   \<and> skill (lazy_labors guild ! 1) \<noteq> job_skill_NONE
   \<and> skill (lazy_labors guild ! 2) \<noteq> job_skill_NONE
   \<and> \<not> can_work (units guild ! 12)
   \<and> units (check_dwarves guild) ! 12 = units guild ! 12
   \<and> labors (units guild ! 9) 1 \<and> \<not> labors (units (check_dwarves guild) ! 9) 1
   \<and> maximum (lazy_labors guild ! 1) < holders (units guild) 1
   \<and> \<not> labors (units guild ! 0) 0 \<and> labors (units (check_dwarves guild) ! 0) 0
   \<and> labors (snd (snd (balance_labors guild)) ! 0) 0
   \<and> holders (units guild) 0 < minimum (lazy_labors guild ! 0)
   \<and> \<not> labors (units guild ! 9) 2 \<and> labors (units (check_dwarves guild) ! 9) 2
   \<and> \<not> holders (units guild) 2 < minimum (lazy_labors guild ! 2)
   \<and> \<not> labors (snd (snd (balance_labors guild)) ! 9) 0
   \<and> \<not> labors (snd (snd (balance_labors guild)) ! 9) 1
   \<and> \<not> labors (snd (snd (balance_labors guild)) ! 9) 2"
proof -
  have n: "0 < length (lazy_labors guild)" "1 < length (lazy_labors guild)"
    "2 < length (lazy_labors guild)"
    by code_simp+
  have u: "uniformed (lazy_labors guild ! 0)" "uniformed (lazy_labors guild ! 1)"
    "uniformed (lazy_labors guild ! 2)"
    by code_simp+
  have k: "skill (lazy_labors guild ! 0) \<noteq> job_skill_NONE"
    "skill (lazy_labors guild ! 1) \<noteq> job_skill_NONE"
    "skill (lazy_labors guild ! 2) \<noteq> job_skill_NONE"
    by code_simp+
  have soldier: "\<not> can_work (units guild ! 12)" by code_simp
  have surplus: "labors (units guild ! 9) 1 \<and> \<not> labors (units (check_dwarves guild) ! 9) 1"
    by code_simp
  have deficit: "\<not> labors (units guild ! 0) 0 \<and> labors (units (check_dwarves guild) ! 0) 0"
    by code_simp
  have miner: "labors (snd (snd (balance_labors guild)) ! 0) 0" by code_simp
  have net: "\<not> labors (units guild ! 9) 2 \<and> labors (units (check_dwarves guild) ! 9) 2"
    by code_simp
  have staffed: "\<not> holders (units guild) 2 < minimum (lazy_labors guild ! 2)" by code_simp
  from uniformed_labor_changes_bounded [OF n(1) u(1) k(1), of 12] soldier
  have a: "units (check_dwarves guild) ! 12 = units guild ! 12" by blast
  from uniformed_labor_changes_bounded [OF n(2) u(2) k(2), of 9] surplus
  have b: "maximum (lazy_labors guild ! 1) < holders (units guild) 1" by blast
  from uniformed_labor_changes_bounded [OF n(1) u(1) k(1), of 0] deficit miner n(1) k(1)
  have c: "holders (units guild) 0 < minimum (lazy_labors guild ! 0)" by blast
  from uniformed_labor_changes_bounded [OF n(3) u(3) k(3), of 9] net staffed
  have d: "\<forall>k<length (lazy_labors guild). skill (lazy_labors guild ! k) \<noteq> job_skill_NONE
         \<longrightarrow> \<not> labors (snd (snd (balance_labors guild)) ! 9) k"
    by blast
  from d n(1) k(1) have d0: "\<not> labors (snd (snd (balance_labors guild)) ! 9) 0" by blast
  from d n(2) k(2) have d1: "\<not> labors (snd (snd (balance_labors guild)) ! 9) 1" by blast
  from d n(3) k(3) have d2: "\<not> labors (snd (snd (balance_labors guild)) ! 9) 2" by blast
  from n(3) u k soldier surplus deficit miner net staffed a b c d0 d1 d2 show ?thesis by blast
qed

end
